theory Spec2Isabelle
  imports Main
begin

section \<open>JavaScript numbers, strings and sorting as the walker uses them\<close>

text \<open>
  Offsets are JavaScript numbers. Chevrotain gives a token inserted during error recovery
  the offsets \<open>NaN\<close>, so \<open>NaN\<close> is part of the model: every comparison with it is
  false and arithmetic on it yields \<open>NaN\<close> again. An \<open>undefined\<close> offset behaves like
  \<open>NaN\<close> in every comparison and sum of the walker.
\<close>

datatype jsnum = Num int | NaN

fun js_lt :: "jsnum \<Rightarrow> jsnum \<Rightarrow> bool" where
  "js_lt (Num a) (Num b) = (a < b)"
| "js_lt _ _ = False"

fun js_le :: "jsnum \<Rightarrow> jsnum \<Rightarrow> bool" where
  "js_le (Num a) (Num b) = (a \<le> b)"
| "js_le _ _ = False"

fun js_gt :: "jsnum \<Rightarrow> jsnum \<Rightarrow> bool" where
  "js_gt (Num a) (Num b) = (a > b)"
| "js_gt _ _ = False"

fun js_add :: "jsnum \<Rightarrow> int \<Rightarrow> jsnum" where
  "js_add (Num a) k = Num (a + k)"
| "js_add NaN k = NaN"

fun js_sub :: "jsnum \<Rightarrow> jsnum \<Rightarrow> jsnum" where
  "js_sub (Num a) (Num b) = Num (a - b)"
| "js_sub _ _ = NaN"

text \<open>\<open>ToIntegerOrInfinity\<close> on the values of the model: \<open>NaN\<close> becomes 0.\<close>

fun to_integer :: "jsnum \<Rightarrow> int" where
  "to_integer (Num a) = a"
| "to_integer NaN = 0"

text \<open>
  \<open>String.prototype.slice(start, end)\<close>: a negative index counts from the end, both
  indices are clamped to the string, and an empty string results when the start is not
  before the end. A text is a list of code units.
\<close>

definition clamp_index :: "int \<Rightarrow> int \<Rightarrow> int" where
  "clamp_index len i = (if i < 0 then max (len + i) 0 else min i len)"

definition slice :: "string \<Rightarrow> jsnum \<Rightarrow> jsnum \<Rightarrow> string" where
  "slice text s e =
     (let len = int (length text);
          from = clamp_index len (to_integer s);
          to = clamp_index len (to_integer e)
      in take (nat (to - from)) (drop (nat from) text))"

text \<open>\<open>text.slice(start)\<close>, with the end left out.\<close>

definition slice_from :: "string \<Rightarrow> jsnum \<Rightarrow> string" where
  "slice_from text s = slice text s (Num (int (length text)))"

text \<open>
  \<open>Array.prototype.sort(cmp)\<close> is stable and orders \<open>a\<close> after \<open>b\<close> when
  \<open>cmp(a, b) > 0\<close>; a comparator result \<open>NaN\<close> counts as 0. For a consistent comparator
  every stable sort returns the same array, here by insertion. (With offsets that are
  \<open>NaN\<close> the comparator is not consistent and ECMAScript leaves the order to the
  implementation; the statements about order below are for numeric offsets.)
\<close>

definition cmp_gt :: "('a \<Rightarrow> 'a \<Rightarrow> jsnum) \<Rightarrow> 'a \<Rightarrow> 'a \<Rightarrow> bool" where
  "cmp_gt cmp a b = js_gt (cmp a b) (Num 0)"

fun js_insert :: "('a \<Rightarrow> 'a \<Rightarrow> jsnum) \<Rightarrow> 'a \<Rightarrow> 'a list \<Rightarrow> 'a list" where
  "js_insert cmp x [] = [x]"
| "js_insert cmp x (y # ys) =
     (if cmp_gt cmp x y then y # js_insert cmp x ys else x # y # ys)"

definition js_sort :: "('a \<Rightarrow> 'a \<Rightarrow> jsnum) \<Rightarrow> 'a list \<Rightarrow> 'a list" where
  "js_sort cmp xs = foldr (js_insert cmp) xs []"


section \<open>The concrete syntax tree\<close>

text \<open>
  A Chevrotain token (\<open>IToken\<close>): its image, its inclusive offsets (\<open>endOffset\<close> is
  optional in the type) and the flag set on tokens inserted during error recovery. A
  token is an object: \<open>tok_id\<close> stands for its identity, so that two tokens inserted
  during recovery, equal in every property, are still two tokens, and \<open>===\<close> is the
  equality of the records.
\<close>

record token =
  tok_id :: nat
  tok_image :: string
  startOffset :: jsnum
  endOffset :: "jsnum option"
  isInsertedInRecovery :: bool

text \<open>
  A CST node (\<open>CstNode\<close>): a rule name, the children as a dictionary from label to a list
  of tokens and nodes, in insertion order as \<open>Object.keys\<close> enumerates it (labels are
  distinct), and an optional location. A missing \<open>endOffset\<close> of a location is
  \<open>NaN\<close> here: the walker only compares it.
\<close>

datatype cst =
    Tok token
  | Node string "(string \<times> cst list) list" "(jsnum \<times> jsnum) option"

text \<open>\<open>node.children || {}\<close>; a token has no children.\<close>

fun children :: "cst \<Rightarrow> (string \<times> cst list) list" where
  "children (Tok t) = []"
| "children (Node n ch loc) = ch"

fun location :: "cst \<Rightarrow> (jsnum \<times> jsnum) option" where
  "location (Tok t) = None"
| "location (Node n ch loc) = loc"

text \<open>\<open>children[key] || []\<close>\<close>

definition kids :: "string \<Rightarrow> cst \<Rightarrow> cst list" where
  "kids key node = (case map_of (children node) key of None \<Rightarrow> [] | Some es \<Rightarrow> es)"

text \<open>
  \<open>(children[key] || [])[0]\<close> for a token label (\<open>Macro.Start\<close>, \<open>Macro.End\<close>,
  \<open>Macro.identifier\<close>). The elements under a token label are tokens; a node there is
  not a token and is read as absent.
\<close>

definition firstToken :: "string \<Rightarrow> cst \<Rightarrow> token option" where
  "firstToken key node = (case kids key node of Tok t # _ \<Rightarrow> Some t | _ \<Rightarrow> None)"

text \<open>\<open>(children[key] || [])[0]\<close> for a rule label (\<open>arguments\<close>).\<close>

definition firstElement :: "string \<Rightarrow> cst \<Rightarrow> cst option" where
  "firstElement key node = (case kids key node of e # _ \<Rightarrow> Some e | [] \<Rightarrow> None)"

text \<open>An \<open>undefined\<close> number in arithmetic and comparisons.\<close>

fun num_of :: "jsnum option \<Rightarrow> jsnum" where
  "num_of None = NaN"
| "num_of (Some v) = v"


section \<open>MacroCstWalker\<close>

subsection \<open>Recovery tokens and ranges\<close>

fun isRecoveryToken :: "token option \<Rightarrow> bool" where
  "isRecoveryToken None = True"
| "isRecoveryToken (Some t) = (isInsertedInRecovery t \<or> startOffset t = NaN)"

definition getMacroRange :: "cst \<Rightarrow> jsnum \<times> jsnum" where
  "getMacroRange macroNode =
     (case (firstToken ''Macro.Start'' macroNode, firstToken ''Macro.End'' macroNode) of
        (Some startToken, Some endToken) \<Rightarrow> (startOffset startToken, num_of (endOffset endToken))
      | _ \<Rightarrow> (case location macroNode of
                Some (s, e) \<Rightarrow> (s, e)
              | None \<Rightarrow> (Num 0, Num 0)))"

subsection \<open>Document items\<close>

datatype item =
    PlaintextItem jsnum jsnum token
  | MacroItem jsnum jsnum cst

fun istart :: "item \<Rightarrow> jsnum" where
  "istart (PlaintextItem s e t) = s"
| "istart (MacroItem s e n) = s"

fun iend :: "item \<Rightarrow> jsnum" where
  "iend (PlaintextItem s e t) = e"
| "iend (MacroItem s e n) = e"

text \<open>A nested element that has both a start and an end token, the end one real.\<close>

definition isCompleteMacro :: "cst \<Rightarrow> bool" where
  "isCompleteMacro element =
     (firstToken ''Macro.Start'' element \<noteq> None \<and> firstToken ''Macro.End'' element \<noteq> None
      \<and> \<not> isRecoveryToken (firstToken ''Macro.End'' element))"

text \<open>
  \<open>#flattenIncompleteMacro\<close>: the loop over \<open>Object.keys(children)\<close> and over the
  elements of each label, pushing to \<open>items\<close>. \<open>element === excludeToken\<close> compares
  object identity, here the equality of the token records, \<open>tok_id\<close> included.
\<close>

fun flattenIncompleteMacro :: "cst \<Rightarrow> token option \<Rightarrow> item list \<Rightarrow> item list"
  and flattenGroups :: "(string \<times> cst list) list \<Rightarrow> token option \<Rightarrow> item list \<Rightarrow> item list"
  and flattenElements :: "cst list \<Rightarrow> token option \<Rightarrow> item list \<Rightarrow> item list"
where
  "flattenIncompleteMacro (Tok t) excludeToken items = items"
| "flattenIncompleteMacro (Node n ch loc) excludeToken items = flattenGroups ch excludeToken items"
| "flattenGroups [] excludeToken items = items"
| "flattenGroups ((key, es) # gs) excludeToken items =
     flattenGroups gs excludeToken (flattenElements es excludeToken items)"
| "flattenElements [] excludeToken items = items"
| "flattenElements (Tok t # es) excludeToken items =
     flattenElements es excludeToken
       (if Some t = excludeToken then items
        else items @ [PlaintextItem (startOffset t)
                        (case endOffset t of Some e \<Rightarrow> e | None \<Rightarrow> startOffset t) t])"
| "flattenElements (Node n ch loc # es) excludeToken items =
     flattenElements es excludeToken
       (let element = Node n ch loc;
            nestedEnd = firstToken ''Macro.End'' element;
            nestedStart = firstToken ''Macro.Start'' element
        in if nestedStart \<noteq> None \<and> nestedEnd \<noteq> None then
             (if \<not> isRecoveryToken nestedEnd then
                items @ [MacroItem (fst (getMacroRange element)) (snd (getMacroRange element)) element]
              else flattenIncompleteMacro element nestedEnd items)
           else flattenIncompleteMacro element excludeToken items)"

text \<open>The comparator of \<open>items.sort\<close>; \<open>NaN !== NaN\<close> holds.\<close>

definition item_cmp :: "item \<Rightarrow> item \<Rightarrow> jsnum" where
  "item_cmp a b =
     (if istart a \<noteq> istart b \<or> istart a = NaN then js_sub (istart a) (istart b)
      else js_sub (iend a) (iend b))"

text \<open>The first loop of \<open>#collectDocumentItems\<close>, over the plaintext tokens.\<close>

fun plaintextItems :: "cst list \<Rightarrow> item list" where
  "plaintextItems [] = []"
| "plaintextItems (Tok t # es) =
     (case endOffset t of
        None \<Rightarrow> plaintextItems es
      | Some e \<Rightarrow> PlaintextItem (startOffset t) e t # plaintextItems es)"
| "plaintextItems (Node n ch loc # es) = plaintextItems es"

text \<open>The second loop, over the macro nodes.\<close>

fun macroItems :: "cst list \<Rightarrow> item list \<Rightarrow> item list" where
  "macroItems [] items = items"
| "macroItems (macroNode # ms) items =
     macroItems ms
       (let endToken = firstToken ''Macro.End'' macroNode
        in if isRecoveryToken endToken then flattenIncompleteMacro macroNode endToken items
           else items @ [MacroItem (fst (getMacroRange macroNode)) (snd (getMacroRange macroNode))
                           macroNode])"

definition collectDocumentItems :: "cst \<Rightarrow> item list" where
  "collectDocumentItems cst =
     js_sort item_cmp (macroItems (kids ''macro'' cst) (plaintextItems (kids ''plaintext'' cst)))"


subsection \<open>Evaluation\<close>

record 'env macro_call =
  call_name :: string
  call_args :: "string list"
  call_env :: 'env
  call_rawInner :: string
  call_rawWithBraces :: string
  call_range :: "jsnum \<times> jsnum"
  call_cstNode :: cst

type_synonym ('env, 'st) resolver = "'env macro_call \<Rightarrow> 'st \<Rightarrow> string \<times> 'st"

fun lower_bound :: "int option \<Rightarrow> jsnum \<Rightarrow> int option" where
  "lower_bound acc NaN = acc"
| "lower_bound None (Num v) = Some v"
| "lower_bound (Some a) (Num v) = (if v < a then Some v else Some a)"

fun upper_bound :: "int option \<Rightarrow> jsnum \<Rightarrow> int option" where
  "upper_bound acc NaN = acc"
| "upper_bound None (Num v) = Some v"
| "upper_bound (Some a) (Num v) = (if v > a then Some v else Some a)"

fun locationStep :: "cst \<Rightarrow> int option \<times> int option \<Rightarrow> int option \<times> int option" where
  "locationStep (Node n ch loc) (so, eo) =
     (case loc of None \<Rightarrow> (so, eo)
      | Some (s, e) \<Rightarrow> (lower_bound so s, upper_bound eo e))"
| "locationStep (Tok t) (so, eo) =
     (lower_bound so (startOffset t), upper_bound eo (num_of (endOffset t)))"

definition getArgumentLocation :: "cst \<Rightarrow> (int \<times> int) option" where
  "getArgumentLocation argNode =
     (case fold locationStep (concat (map snd (children argNode))) (None, None) of
        (Some s, Some e) \<Rightarrow> Some (s, e)
      | _ \<Rightarrow> None)"

definition range_cmp :: "cst \<times> jsnum \<times> jsnum \<Rightarrow> cst \<times> jsnum \<times> jsnum \<Rightarrow> jsnum" where
  "range_cmp a b = js_sub (fst (snd a)) (fst (snd b))"

definition argument_cmp :: "string \<times> int \<times> int \<Rightarrow> string \<times> int \<times> int \<Rightarrow> jsnum" where
  "argument_cmp a b = Num (fst (snd a) - fst (snd b))"

definition nestedWithRange :: "cst \<Rightarrow> (cst \<times> jsnum \<times> jsnum) list" where
  "nestedWithRange argNode =
     js_sort range_cmp (map (\<lambda>node. (node, getMacroRange node)) (kids ''macro'' argNode))"

definition argumentNodes :: "cst \<Rightarrow> cst list" where
  "argumentNodes macroNode =
     (case firstElement ''arguments'' macroNode of
        None \<Rightarrow> []
      | Some argumentsNode \<Rightarrow> kids ''argument'' argumentsNode)"

fun rawInnerStep :: "string \<Rightarrow> string \<times> int \<times> int \<Rightarrow> string \<times> jsnum \<Rightarrow> string \<times> jsnum" where
  "rawInnerStep text (v, s, e) (rawInner, cursor) =
     ((if js_gt (Num s) cursor then rawInner @ slice text cursor (Num s) else rawInner) @ v,
      Num (e + 1))"

definition buildRawInner :: "string \<Rightarrow> jsnum \<Rightarrow> jsnum \<Rightarrow> (string \<times> int \<times> int) list \<Rightarrow> string" where
  "buildRawInner text innerStart innerEnd evaluatedArguments =
     (if js_le innerStart innerEnd then
        (let (rawInner, cursor) = fold (rawInnerStep text) evaluatedArguments ([], innerStart)
         in if js_le cursor innerEnd then rawInner @ slice text cursor (js_add innerEnd 1)
            else rawInner)
      else [])"

lemma set_js_insert: "set (js_insert cmp x ys) = insert x (set ys)"
  by (induction ys) auto

lemma set_js_sort: "set (js_sort cmp xs) = set xs"
  by (induction xs) (auto simp: js_sort_def set_js_insert)

lemma size_elem: "e \<in> set es \<Longrightarrow> size e \<le> size_list size es"
  by (induction es) auto

lemma size_group: "(k, es) \<in> set ch \<Longrightarrow> size_list size es \<le> size_list (size_prod (\<lambda>_. 0) (size_list size)) ch"
  by (induction ch) auto

lemma size_kids: "e \<in> set (kids key node) \<Longrightarrow> size e < size node"
proof (cases node)
  case (Tok t)
  assume "e \<in> set (kids key node)"
  with Tok show ?thesis by (simp add: kids_def)
next
  case (Node n ch loc)
  assume e: "e \<in> set (kids key node)"
  then obtain es where es: "map_of ch key = Some es" "e \<in> set es"
    using Node by (cases "map_of ch key") (auto simp: kids_def)
  then have "(key, es) \<in> set ch" by (simp add: map_of_SomeD)
  then show ?thesis using es(2) Node size_elem[of e es] size_group[of key es ch] by simp
qed

lemma size_argumentNodes: "e \<in> set (argumentNodes node) \<Longrightarrow> size e < size node"
proof -
  assume e: "e \<in> set (argumentNodes node)"
  then obtain a where a: "firstElement ''arguments'' node = Some a" "e \<in> set (kids ''argument'' a)"
    by (cases "firstElement ''arguments'' node") (auto simp: argumentNodes_def)
  then have "a \<in> set (kids ''arguments'' node)"
    by (auto simp: firstElement_def split: list.splits)
  then show ?thesis using a(2) size_kids[of a "''arguments''" node] size_kids[of e "''argument''" a]
    by simp
qed

lemma size_nestedWithRange: "(node, r) \<in> set (nestedWithRange argNode) \<Longrightarrow> size node < size argNode"
  by (auto simp: nestedWithRange_def set_js_sort size_kids)

definition buildCall ::
    "string \<Rightarrow> 'env \<Rightarrow> cst \<Rightarrow> string list \<Rightarrow> (string \<times> int \<times> int) list \<Rightarrow> 'env macro_call" where
  "buildCall text env macroNode args evaluatedArguments =
     (let name = (case firstToken ''Macro.identifier'' macroNode of
                    Some t \<Rightarrow> tok_image t | None \<Rightarrow> []);
          range = getMacroRange macroNode;
          startToken = firstToken ''Macro.Start'' macroNode;
          endToken = firstToken ''Macro.End'' macroNode;
          innerStart = (case startToken of
                          Some t \<Rightarrow> js_add (num_of (endOffset t)) 1 | None \<Rightarrow> fst range);
          innerEnd = (case endToken of
                        Some t \<Rightarrow> js_add (startOffset t) (- 1) | None \<Rightarrow> snd range)
      in \<lparr> call_name = name, call_args = args, call_env = env,
           call_rawInner = buildRawInner text innerStart innerEnd
                             (js_sort argument_cmp evaluatedArguments),
           call_rawWithBraces = slice text (fst range) (js_add (snd range) 1),
           call_range = range, call_cstNode = macroNode \<rparr>)"

text \<open>
  One iteration of the loop of \<open>#evaluateMacroNode\<close> over the argument nodes, and one of
  the loop of \<open>#evaluateArgumentNode\<close> over the nested macros, each given the evaluation
  function it calls.
\<close>

fun macroArgumentStep ::
    "(cst \<Rightarrow> 'st \<Rightarrow> string \<times> 'st) \<Rightarrow> cst
       \<Rightarrow> string list \<times> (string \<times> int \<times> int) list \<times> 'st
       \<Rightarrow> string list \<times> (string \<times> int \<times> int) list \<times> 'st" where
  "macroArgumentStep evalArgument argNode (args, evaluatedArguments, st) =
     (let (argValue, st') = evalArgument argNode st
      in (args @ [argValue],
          (case getArgumentLocation argNode of
             None \<Rightarrow> evaluatedArguments
           | Some loc \<Rightarrow> evaluatedArguments @ [(argValue, loc)]),
          st'))"

fun argumentStep ::
    "string \<Rightarrow> (cst \<Rightarrow> 'st \<Rightarrow> string \<times> 'st) \<Rightarrow> cst \<times> jsnum \<times> jsnum
       \<Rightarrow> string \<times> jsnum \<times> 'st \<Rightarrow> string \<times> jsnum \<times> 'st" where
  "argumentStep text evalMacro (node, rangeStart, rangeEnd) (result, cursor, st) =
     (if js_lt rangeStart cursor then (result, cursor, st)
      else (let (v, st') = evalMacro node st
            in (result @ slice text cursor rangeStart @ v, js_add rangeEnd 1, st')))"

lemma fold_macroArgumentStep_cong [fundef_cong]:
  "xs = ys \<Longrightarrow> a = b \<Longrightarrow> (\<And>n s. n \<in> set ys \<Longrightarrow> f n s = g n s)
   \<Longrightarrow> fold (macroArgumentStep f) xs a = fold (macroArgumentStep g) ys b"
proof -
  assume eq: "xs = ys" "a = b" and fg: "\<And>n s. n \<in> set ys \<Longrightarrow> f n s = g n s"
  have "fold (macroArgumentStep f) ys acc = fold (macroArgumentStep g) ys acc" for acc
    using fg
  proof (induction ys arbitrary: acc)
    case Nil
    show ?case by simp
  next
    case (Cons y ys)
    obtain as ev s where acc: "acc = (as, ev, s)" by (cases acc) auto
    have "macroArgumentStep f y acc = macroArgumentStep g y acc"
      using Cons.prems[of y s] by (simp add: acc)
    then show ?case using Cons.IH Cons.prems by simp
  qed
  then show ?thesis using eq by simp
qed

lemma fold_argumentStep_cong [fundef_cong]:
  "xs = ys \<Longrightarrow> a = b \<Longrightarrow> (\<And>n r s. (n, r) \<in> set ys \<Longrightarrow> f n s = g n s)
   \<Longrightarrow> fold (argumentStep text f) xs a = fold (argumentStep text g) ys b"
proof -
  assume eq: "xs = ys" "a = b" and fg: "\<And>n r s. (n, r) \<in> set ys \<Longrightarrow> f n s = g n s"
  have "fold (argumentStep text f) ys acc = fold (argumentStep text g) ys acc" for acc
    using fg
  proof (induction ys arbitrary: acc)
    case Nil
    show ?case by simp
  next
    case (Cons y ys)
    obtain n rs re where y: "y = (n, rs, re)" by (cases y) auto
    obtain res c s where acc: "acc = (res, c, s)" by (cases acc) auto
    have "argumentStep text f y acc = argumentStep text g y acc"
      using Cons.prems[of n "(rs, re)" s] by (simp add: acc y)
    moreover have "fold (argumentStep text f) ys acc' = fold (argumentStep text g) ys acc'" for acc'
    proof (rule Cons.IH)
      fix n r s
      assume "(n, r) \<in> set ys"
      then show "f n s = g n s" using Cons.prems[of n r s] by simp
    qed
    ultimately show ?case by simp
  qed
  then show ?thesis using eq by simp
qed

function evaluateMacroNode ::
    "string \<Rightarrow> 'env \<Rightarrow> ('env, 'st) resolver \<Rightarrow> cst \<Rightarrow> 'st \<Rightarrow> string \<times> 'st"
  and evaluateArgumentNode ::
    "string \<Rightarrow> 'env \<Rightarrow> ('env, 'st) resolver \<Rightarrow> cst \<Rightarrow> 'st \<Rightarrow> string \<times> 'st"
where
  "evaluateMacroNode text env resolveMacro macroNode st =
     (let (args, evaluatedArguments, st1) =
             fold (macroArgumentStep (evaluateArgumentNode text env resolveMacro))
               (argumentNodes macroNode) ([], [], st)
      in resolveMacro (buildCall text env macroNode args evaluatedArguments) st1)"
| "evaluateArgumentNode text env resolveMacro argNode st =
     (case getArgumentLocation argNode of
        None \<Rightarrow> ([], st)
      | Some (locStart, locEnd) \<Rightarrow>
          (if kids ''macro'' argNode = [] then
             (slice text (Num locStart) (Num (locEnd + 1)), st)
           else
             (let (result, cursor, st1) =
                    fold (argumentStep text (evaluateMacroNode text env resolveMacro))
                      (nestedWithRange argNode) ([], Num locStart, st)
              in if js_le cursor (Num locEnd)
                 then (result @ slice text cursor (Num (locEnd + 1)), st1)
                 else (result, st1))))"
  by pat_completeness auto
termination
  by (relation "measure (\<lambda>x. case x of Inl (_, _, _, n, _) \<Rightarrow> size n | Inr (_, _, _, n, _) \<Rightarrow> size n)")
     (auto simp: size_argumentNodes size_nestedWithRange)

text \<open>One iteration of the loop of \<open>evaluateDocument\<close>.\<close>

fun documentStep ::
    "string \<Rightarrow> 'env \<Rightarrow> ('env, 'st) resolver \<Rightarrow> item \<Rightarrow> string \<times> jsnum \<times> 'st \<Rightarrow> string \<times> jsnum \<times> 'st" where
  "documentStep text env resolveMacro (PlaintextItem s e t) (result, cursor, st) =
     ((if js_gt s cursor then result @ slice text cursor s else result)
        @ slice text s (js_add e 1),
      js_add e 1, st)"
| "documentStep text env resolveMacro (MacroItem s e node) (result, cursor, st) =
     (let (v, st') = evaluateMacroNode text env resolveMacro node st
      in ((if js_gt s cursor then result @ slice text cursor s else result) @ v,
          js_add e 1, st'))"

definition evaluateDocument ::
    "string \<Rightarrow> cst \<Rightarrow> 'env \<Rightarrow> ('env, 'st) resolver \<Rightarrow> 'st \<Rightarrow> string \<times> 'st" where
  "evaluateDocument text cst env resolveMacro st =
     (let items = collectDocumentItems cst
      in if items = [] then (text, st)
         else (let (result, cursor, st1) =
                     fold (documentStep text env resolveMacro) items ([], Num 0, st)
               in if js_lt cursor (Num (int (length text)))
                  then (result @ slice_from text cursor, st1)
                  else (result, st1)))"


section \<open>MacroEngine\<close>

subsection \<open>Pre- and post-processors\<close>

definition lower_ascii :: "char \<Rightarrow> char" where
  "lower_ascii c =
     (let n = (of_char c :: nat) in if 65 \<le> n \<and> n \<le> 90 then char_of (n + 32) else c)"

fun ci_prefix :: "string \<Rightarrow> string \<Rightarrow> bool" where
  "ci_prefix [] s = True"
| "ci_prefix (p # ps) [] = False"
| "ci_prefix (p # ps) (c # cs) = (lower_ascii p = lower_ascii c \<and> ci_prefix ps cs)"

fun replace_ci :: "string \<Rightarrow> string \<Rightarrow> string \<Rightarrow> string" where
  "replace_ci pat rep [] = []"
| "replace_ci pat rep (c # cs) =
     (if ci_prefix pat (c # cs) then rep @ replace_ci pat rep (drop (length pat - 1) cs)
      else c # replace_ci pat rep cs)"

definition is_digit :: "char \<Rightarrow> bool" where
  "is_digit c = (let n = (of_char c :: nat) in 48 \<le> n \<and> n \<le> 57)"

definition match_time :: "string \<Rightarrow> (string \<times> string) option" where
  "match_time s =
     (if ci_prefix ''{{time_utc'' s then
        (case drop 10 s of
           [] \<Rightarrow> None
         | sign # r \<Rightarrow>
             (if (sign = CHR ''+'' \<or> sign = CHR ''-'') \<and> takeWhile is_digit r \<noteq> []
                   \<and> take 2 (dropWhile is_digit r) = ''}}''
              then Some (take 3 (drop 7 s) @ [sign] @ takeWhile is_digit r,
                         drop 2 (dropWhile is_digit r))
              else None))
      else None)"

function rewrite_time :: "string \<Rightarrow> string" where
  "rewrite_time [] = []"
| "rewrite_time (c # cs) =
     (case match_time (c # cs) of
        Some (utcOffset, rest) \<Rightarrow> ''{{time::'' @ utcOffset @ ''}}'' @ rewrite_time rest
      | None \<Rightarrow> c # rewrite_time cs)"
  by pat_completeness auto

lemma match_time_shorter: "match_time s = Some (u, rest) \<Longrightarrow> length rest < length s"
proof -
  assume m: "match_time s = Some (u, rest)"
  show ?thesis
  proof (cases "drop 10 s")
    case Nil
    from m have False unfolding match_time_def Nil by (simp split: if_splits)
    then show ?thesis ..
  next
    case (Cons sign r)
    from m have rest: "rest = drop 2 (dropWhile is_digit r)"
      unfolding match_time_def Cons by (simp split: if_splits)
    have "length (dropWhile is_digit r) \<le> length r" by (rule length_dropWhile_le)
    then have "length rest \<le> length r" using rest by simp
    moreover have "length (drop 10 s) = Suc (length r)" using Cons by simp
    then have "length r < length s" by simp
    ultimately show ?thesis by simp
  qed
qed

termination rewrite_time
proof (relation "measure length")
  show "wf (measure length)" by simp
next
  fix c cs x2 x y
  assume "match_time (c # cs) = Some x2" "(x, y) = x2"
  then have "length y < length (c # cs)" using match_time_shorter[of "c # cs" x y] by simp
  then show "(y, c # cs) \<in> measure length" by simp
next
  fix c cs
  show "(cs, c # cs) \<in> measure length" by simp
qed


definition runPreProcessors :: "string \<Rightarrow> string" where
  "runPreProcessors text =
     (let result = rewrite_time text;
          result = replace_ci ''<USER>'' ''{{user}}'' result;
          result = replace_ci ''<BOT>'' ''{{char}}'' result;
          result = replace_ci ''<CHAR>'' ''{{char}}'' result;
          result = replace_ci ''<GROUP>'' ''{{group}}'' result;
          result = replace_ci ''<CHARIFNOTGROUP>'' ''{{charIfNotGroup}}'' result
      in result)"

fun unescape :: "string \<Rightarrow> string" where
  "unescape [] = []"
| "unescape [c] = [c]"
| "unescape (c # d # cs) =
     (if c = CHR 0x5C \<and> (d = CHR ''{'' \<or> d = CHR ''}'') then d # unescape cs
      else c # unescape (d # cs))"

fun drop_newlines :: "string \<Rightarrow> string" where
  "drop_newlines [] = []"
| "drop_newlines [c] = (if c = CHR 0x0A then [] else [c])"
| "drop_newlines (c # d # cs) =
     (if c = CHR 0x0A then drop_newlines (d # cs)
      else if c = CHR 0x0D \<and> d = CHR 0x0A then drop_newlines cs
      else c # d # cs)"

definition match_trim :: "string \<Rightarrow> string option" where
  "match_trim s =
     (let r = drop_newlines s
      in if ci_prefix ''{{trim}}'' r then Some (drop_newlines (drop 8 r)) else None)"

function strip_trim :: "string \<Rightarrow> string" where
  "strip_trim [] = []"
| "strip_trim (c # cs) =
     (case match_trim (c # cs) of
        Some rest \<Rightarrow> strip_trim rest
      | None \<Rightarrow> c # strip_trim cs)"
  by pat_completeness auto

lemma drop_newlines_le: "length (drop_newlines s) \<le> length s"
  by (induction s rule: drop_newlines.induct) auto

lemma ci_prefix_length: "ci_prefix p s \<Longrightarrow> length p \<le> length s"
  by (induction p s rule: ci_prefix.induct) auto

lemma match_trim_shorter: "match_trim s = Some rest \<Longrightarrow> length rest < length s"
proof -
  assume m: "match_trim s = Some rest"
  then have p: "ci_prefix ''{{trim}}'' (drop_newlines s)"
    and r: "rest = drop_newlines (drop 8 (drop_newlines s))"
    unfolding match_trim_def Let_def by (simp_all split: if_splits)
  have "8 \<le> length (drop_newlines s)" using ci_prefix_length[OF p] by simp
  moreover have "length rest \<le> length (drop_newlines s) - 8"
    using r drop_newlines_le[of "drop 8 (drop_newlines s)"] by simp
  ultimately show ?thesis using drop_newlines_le[of s] by linarith
qed

termination strip_trim
proof (relation "measure length")
  show "wf (measure length)" by simp
next
  fix c cs rest
  assume "match_trim (c # cs) = Some rest"
  then have "length rest < length (c # cs)" by (rule match_trim_shorter)
  then show "(rest, c # cs) \<in> measure length" by simp
next
  fix c cs
  show "(cs, c # cs) \<in> measure length" by simp
qed

definition runPostProcessors :: "string \<Rightarrow> string" where
  "runPostProcessors text = strip_trim (unescape text)"





subsection \<open>Values, errors and the log\<close>

text \<open>
  What a handler returns, as far as \<open>normalizeMacroResult\<close> tells values apart: a date
  comes with its ISO string, an object with the result of \<open>JSON.stringify\<close>
  (\<open>None\<close> when that throws) and of \<open>String\<close>, any other value with its \<open>String\<close>.
\<close>

datatype jsvalue =
    JNull
  | JUndefined
  | JString string
  | JDate string
  | JObject "string option" string
  | JOther string

fun normalizeMacroResult :: "jsvalue \<Rightarrow> string" where
  "normalizeMacroResult JNull = []"
| "normalizeMacroResult JUndefined = []"
| "normalizeMacroResult (JDate isoString) = isoString"
| "normalizeMacroResult (JObject (Some json) str) = json"
| "normalizeMacroResult (JObject None str) = str"
| "normalizeMacroResult (JString s) = s"
| "normalizeMacroResult (JOther str) = str"

text \<open>
  A thrown value: an error object with its \<open>name\<close>, its \<open>isMacroRuntimeError\<close> tag and
  its \<open>message\<close>, or anything else (a thrown primitive).
\<close>

datatype value_type = TString | TInteger | TNumber | TBoolean

text \<open>
  The text of a message. The messages that \<open>MacroRegistry.executeMacro\<close> builds are not
  under src/; they are represented by what they report: the macro name with the number
  of unnamed arguments of the call, or with the index and the expected type of the
  argument that failed.
\<close>

datatype message =
    PlainMessage string
  | ArityMessage string nat
  | TypeMessage string nat "value_type list"
  | UnknownMacroMessage string

datatype js_error =
    JsError string bool message
  | JsOther

text \<open>\<open>createMacroRuntimeError\<close> (MacroDiagnostics): the name and the tag it sets.\<close>

definition createMacroRuntimeError :: "message \<Rightarrow> js_error" where
  "createMacroRuntimeError msg = JsError ''MacroRuntimeError'' True msg"

text \<open>The channels of MacroDiagnostics, each entry with its message.\<close>

datatype log_entry =
    RuntimeWarning message
  | InternalError string
  | GeneralError string
  | SyntaxWarning string nat

record 'h engine_state =
  logged :: "log_entry list"
  handlerState :: 'h

definition emit :: "log_entry \<Rightarrow> 'h engine_state \<Rightarrow> 'h engine_state" where
  "emit entry st = st\<lparr> logged := logged st @ [entry] \<rparr>"

subsection \<open>Definitions and the environment\<close>

record arg_def =
  arg_name :: string
  arg_type :: "value_type list"
  arg_optional :: bool
  arg_defaultValue :: "string option"

text \<open>
  What a handler receives: \<open>{ unnamedArgs, list, env, call, range }\<close>. The environment
  a handler sees is the data of the environment (names, content, ...), of any type
  \<open>'d\<close>; the call it sees carries that data as its \<open>env\<close>. A handler may read and change
  state of its own (variables, counters), of any type \<open>'h\<close>, and may throw.
\<close>

record 'd handler_ctx =
  unnamedArgs :: "string list"
  listArgs :: "string list"
  ctx_env :: 'd
  ctx_call :: "'d macro_call"
  ctx_range :: "jsnum \<times> jsnum"

type_synonym ('d, 'h) handler = "'d handler_ctx \<Rightarrow> 'h \<Rightarrow> (js_error + jsvalue) \<times> 'h"

record ('d, 'h) macro_definition =
  def_name :: string
  minArgs :: nat
  maxArgs :: nat
  unnamedArgDefs :: "arg_def list"
  def_list :: "(nat \<times> nat option) option"
  strictArgs :: bool
  handler :: "('d, 'h) handler"

datatype ('d, 'h) dynamic_macro =
    DynamicValue jsvalue
  | DynamicFunction "('d, 'h) handler"

record ('d, 'h) macro_env =
  env_data :: 'd
  dynamicMacros :: "string \<rightharpoonup> ('d, 'h) dynamic_macro"
  postProcess :: "string \<Rightarrow> 'h \<Rightarrow> (js_error + string) \<times> 'h"

subsection \<open>MacroRegistry.executeMacro\<close>

text \<open>
  Modelled from the spec: \<open>MacroRegistry.executeMacro\<close> (MacroRegistry.js is not under
  src/), steps 1 to 7 of the spec's section 4.3. Two points are fixed by the sources
  that are under src/. The entries the list requires come on top of the required
  arguments, \<open>minArgs + list.min \<le> n\<close>: the test "should not resolve list-bounded macro
  when called outside list bounds" registers "exactly 1 required + 1-2 list args" and
  expects \<open>{{test-list-bounds::base}}\<close>, "too few list args (only required arg)", to stay
  raw with a warning. And a violation under \<open>strictArgs\<close> is signalled by throwing the
  error of \<open>createMacroRuntimeError\<close>, which the engine catches, logs as a runtime warning
  and answers with the raw invocation, as the documentation of that function says.
\<close>

definition listMin :: "('d, 'h) macro_definition \<Rightarrow> nat" where
  "listMin d = (case def_list d of None \<Rightarrow> 0 | Some (mn, mx) \<Rightarrow> mn)"

text \<open>\<open>n \<le> maxArgs + listMax\<close>, where \<open>listMax\<close> is 0 without a list and unbounded
  for a list without \<open>max\<close>.\<close>

definition withinListMax :: "('d, 'h) macro_definition \<Rightarrow> nat \<Rightarrow> bool" where
  "withinListMax d n =
     (case def_list d of
        None \<Rightarrow> n \<le> maxArgs d
      | Some (mn, None) \<Rightarrow> True
      | Some (mn, Some mx) \<Rightarrow> n \<le> maxArgs d + mx)"

definition isArgCountValid :: "('d, 'h) macro_definition \<Rightarrow> nat \<Rightarrow> bool" where
  "isArgCountValid d n = (minArgs d + listMin d \<le> n \<and> withinListMax d n)"

definition is_integer_text :: "string \<Rightarrow> bool" where
  "is_integer_text s =
     (let ds = (case s of c # cs \<Rightarrow> (if c = CHR ''-'' then cs else s) | [] \<Rightarrow> [])
      in ds \<noteq> [] \<and> list_all is_digit ds)"

definition is_number_text :: "string \<Rightarrow> bool" where
  "is_number_text s =
     (let ds = (case s of c # cs \<Rightarrow> (if c = CHR ''-'' then cs else s) | [] \<Rightarrow> []);
          whole = takeWhile is_digit ds;
          rest = dropWhile is_digit ds
      in whole \<noteq> []
         \<and> (rest = [] \<or> (hd rest = CHR ''.'' \<and> tl rest \<noteq> [] \<and> list_all is_digit (tl rest))))"

definition is_boolean_text :: "string \<Rightarrow> bool" where
  "is_boolean_text s = (map lower_ascii s \<in> set [''true'', ''false'', ''1'', ''0'', ''yes'', ''no''])"

fun matchesType :: "value_type \<Rightarrow> string \<Rightarrow> bool" where
  "matchesType TString s = True"
| "matchesType TInteger s = is_integer_text s"
| "matchesType TNumber s = is_number_text s"
| "matchesType TBoolean s = is_boolean_text s"

definition argTypeOk :: "arg_def \<Rightarrow> string \<Rightarrow> bool" where
  "argTypeOk a s = (arg_type a = [] \<or> list_ex (\<lambda>t. matchesType t s) (arg_type a))"

definition applyDefaults :: "('d, 'h) macro_definition \<Rightarrow> string list \<Rightarrow> string list" where
  "applyDefaults d argv =
     argv @ map (\<lambda>a. case arg_defaultValue a of Some v \<Rightarrow> v | None \<Rightarrow> [])
            (filter arg_optional (drop (length argv) (take (maxArgs d) (unnamedArgDefs d))))"

definition firstTypeMismatch :: "('d, 'h) macro_definition \<Rightarrow> string list \<Rightarrow> nat option" where
  "firstTypeMismatch d argv =
     (case filter (\<lambda>i. \<not> argTypeOk (unnamedArgDefs d ! i) (argv ! i))
             [0 ..< min (length argv) (min (maxArgs d) (length (unnamedArgDefs d)))] of
        [] \<Rightarrow> None
      | i # _ \<Rightarrow> Some i)"

text \<open>The call as a handler sees it.\<close>

definition callFor :: "'d \<Rightarrow> 'env macro_call \<Rightarrow> 'd macro_call" where
  "callFor envData call =
     \<lparr> call_name = call_name call, call_args = call_args call, call_env = envData,
       call_rawInner = call_rawInner call, call_rawWithBraces = call_rawWithBraces call,
       call_range = call_range call, call_cstNode = call_cstNode call \<rparr>"

definition invokeHandler ::
    "('d, 'h) macro_definition \<Rightarrow> 'd \<Rightarrow> 'env macro_call \<Rightarrow> string list
       \<Rightarrow> 'h engine_state \<Rightarrow> (js_error + string) \<times> 'h engine_state" where
  "invokeHandler d envData call argv st =
     (let ctx = \<lparr> unnamedArgs = take (maxArgs d) argv,
                  listArgs = (if def_list d = None then [] else drop (maxArgs d) argv),
                  ctx_env = envData, ctx_call = callFor envData call,
                  ctx_range = call_range call \<rparr>;
          (outcome, h) = handler d ctx (handlerState st)
      in (map_sum id normalizeMacroResult outcome, st\<lparr> handlerState := h \<rparr>))"

text \<open>Steps 3 to 7: defaults, type validation, and the handler.\<close>

definition executeValidated ::
    "('d, 'h) macro_definition \<Rightarrow> 'd \<Rightarrow> 'env macro_call
       \<Rightarrow> 'h engine_state \<Rightarrow> (js_error + string) \<times> 'h engine_state" where
  "executeValidated d envData call st =
     (let argv = applyDefaults d (call_args call)
      in case firstTypeMismatch d argv of
           Some i \<Rightarrow>
             (let msg = TypeMessage (def_name d) i (arg_type (unnamedArgDefs d ! i))
              in if strictArgs d then (Inl (createMacroRuntimeError msg), st)
                 else invokeHandler d envData call argv (emit (RuntimeWarning msg) st))
         | None \<Rightarrow> invokeHandler d envData call argv st)"

definition executeMacro ::
    "(string \<rightharpoonup> ('d, 'h) macro_definition) \<Rightarrow> 'd \<Rightarrow> 'env macro_call
       \<Rightarrow> ('d, 'h) macro_definition option
       \<Rightarrow> 'h engine_state \<Rightarrow> (js_error + string) \<times> 'h engine_state" where
  "executeMacro registry envData call defOverride st =
     (case (case defOverride of Some d \<Rightarrow> Some d | None \<Rightarrow> registry (call_name call)) of
        None \<Rightarrow> (Inl (JsError ''Error'' False (UnknownMacroMessage (call_name call))), st)
      | Some d \<Rightarrow>
          (let n = length (call_args call)
           in if isArgCountValid d n then executeValidated d envData call st
              else if strictArgs d
                then (Inl (createMacroRuntimeError (ArityMessage (def_name d) n)), st)
                else executeValidated d envData call
                       (emit (RuntimeWarning (ArityMessage (def_name d) n)) st)))"

subsection \<open>MacroEngine.resolveMacro and evaluate\<close>

text \<open>
  The registry is the alias-aware lookup of \<open>MacroRegistry\<close>: a map from every registered
  name and alias to its definition; \<open>hasMacro(name)\<close> is \<open>registry name \<noteq> None\<close>.
  \<open>Object.hasOwn(env.dynamicMacros, name)\<close> is \<open>dynamicMacros env name \<noteq> None\<close>.
  The two \<open>try\<close> blocks of \<open>#resolveMacro\<close> are the two case distinctions on what
  \<open>executeMacro\<close> and \<open>postProcess\<close> return or throw.
\<close>

definition dynamicDefinition :: "string \<Rightarrow> ('d, 'h) dynamic_macro \<Rightarrow> ('d, 'h) macro_definition" where
  "dynamicDefinition name impl =
     \<lparr> def_name = name, minArgs = 0, maxArgs = 0, unnamedArgDefs = [], def_list = None,
       strictArgs = True,
       handler = (case impl of
                    DynamicFunction f \<Rightarrow> f
                  | DynamicValue v \<Rightarrow> (\<lambda>ctx h. (Inr v, h))) \<rparr>"

definition dynamicOverride ::
    "('d, 'h) macro_env \<Rightarrow> string \<Rightarrow> ('d, 'h) macro_definition option" where
  "dynamicOverride env name =
     (case dynamicMacros env name of
        Some impl \<Rightarrow> Some (dynamicDefinition name impl)
      | None \<Rightarrow> None)"

definition isRuntimeError :: "js_error \<Rightarrow> bool" where
  "isRuntimeError error =
     (case error of
        JsError ename tagged msg \<Rightarrow> ename = ''MacroRuntimeError'' \<or> tagged
      | JsOther \<Rightarrow> False)"

text \<open>\<open>error.message || fallback\<close>: the fallback for an empty or missing message.\<close>

definition messageOr :: "js_error \<Rightarrow> string \<Rightarrow> message" where
  "messageOr error fallback =
     (case error of
        JsError ename tagged msg \<Rightarrow> (if msg = PlainMessage [] then PlainMessage fallback else msg)
      | JsOther \<Rightarrow> PlainMessage fallback)"

definition resolveMacro ::
    "(string \<rightharpoonup> ('d, 'h) macro_definition) \<Rightarrow> ('d, 'h) macro_env macro_call
       \<Rightarrow> 'h engine_state \<Rightarrow> string \<times> 'h engine_state" where
  "resolveMacro registry call st =
     (let name = call_name call;
          env = call_env call;
          raw = ''{{'' @ call_rawInner call @ ''}}''
      in if name = [] then (raw, st)
         else
           (let defOverride = dynamicOverride env name
            in if defOverride = None \<and> registry name = None then (raw, st)
               else
                 (case executeMacro registry (env_data env) call defOverride st of
                    (Inr result, st1) \<Rightarrow>
                      (case postProcess env result (handlerState st1) of
                         (Inr processed, h) \<Rightarrow> (processed, st1\<lparr> handlerState := h \<rparr>)
                       | (Inl error, h) \<Rightarrow>
                           (result,
                            emit (InternalError (''Macro \"'' @ name @ ''\" postProcess function failed.''))
                              (st1\<lparr> handlerState := h \<rparr>)))
                  | (Inl error, st1) \<Rightarrow>
                      (raw,
                       if isRuntimeError error then
                         emit (RuntimeWarning
                                 (messageOr error (''Macro \"'' @ name @ ''\" execution failed.''))) st1
                       else
                         emit (InternalError (''Macro \"'' @ name @ ''\" internal execution error.'')) st1))))"

text \<open>
  \<open>MacroParser.parseDocument\<close> is not under src/: \<open>evaluate\<close> takes it as a parameter.
  \<open>Object.freeze({ ...env })\<close> copies the properties of \<open>env\<close>; as a value the copy is
  \<open>env\<close>. The walker cannot throw in the model, so the \<open>catch\<close> around it has no branch.
\<close>

record parse_result =
  parsed_cst :: "cst option"
  lexingErrors :: "string list"
  parserErrors :: "string list"

definition logMacroSyntaxWarning :: "string \<Rightarrow> string list \<Rightarrow> 'h engine_state \<Rightarrow> 'h engine_state" where
  "logMacroSyntaxWarning phase errors st =
     (if errors = [] then st else emit (SyntaxWarning phase (length errors)) st)"

definition evaluate ::
    "(string \<Rightarrow> parse_result) \<Rightarrow> (string \<rightharpoonup> ('d, 'h) macro_definition)
       \<Rightarrow> string \<Rightarrow> ('d, 'h) macro_env \<Rightarrow> 'h engine_state \<Rightarrow> string \<times> 'h engine_state" where
  "evaluate parseDocument registry input env st =
     (if input = [] then ([], st)
      else
        (let safeEnv = env;
             preProcessed = runPreProcessors input;
             parsed = parseDocument preProcessed;
             st1 = logMacroSyntaxWarning ''lexing'' (lexingErrors parsed) st;
             st2 = logMacroSyntaxWarning ''parsing'' (parserErrors parsed) st1
         in case parsed_cst parsed of
              None \<Rightarrow>
                (input,
                 emit (GeneralError ''Macro parser produced an invalid CST. Returning original input.'') st2)
            | Some tree \<Rightarrow>
                (let (evaluated, st3) =
                       evaluateDocument preProcessed tree safeEnv (resolveMacro registry) st2
                 in (runPostProcessors evaluated, st3))))"



section \<open>Examples: environments, calls and definitions\<close>

text \<open>An environment whose \<open>functions.postProcess\<close> is the identity.\<close>

definition noPostProcess :: "string \<Rightarrow> 'h \<Rightarrow> (js_error + string) \<times> 'h" where
  "noPostProcess result h = (Inr result, h)"

definition state0 :: "unit engine_state" where
  "state0 = \<lparr> logged = [], handlerState = () \<rparr>"

definition plainEnv :: "(string \<rightharpoonup> (unit, unit) dynamic_macro) \<Rightarrow> (unit, unit) macro_env" where
  "plainEnv dyn = \<lparr> env_data = (), dynamicMacros = dyn, postProcess = noPostProcess \<rparr>"

definition callOf :: "string \<Rightarrow> string list \<Rightarrow> string \<Rightarrow> 'env \<Rightarrow> 'env macro_call" where
  "callOf name args inner env =
     \<lparr> call_name = name, call_args = args, call_env = env, call_rawInner = inner,
       call_rawWithBraces = ''{{'' @ inner @ ''}}'', call_range = (Num 0, Num 0),
       call_cstNode = Node ''macro'' [] None \<rparr>"

definition throwingMacro :: "js_error \<Rightarrow> (unit, unit) macro_definition" where
  "throwingMacro e =
     \<lparr> def_name = ''boom'', minArgs = 0, maxArgs = 0, unnamedArgDefs = [], def_list = None,
       strictArgs = True, handler = (\<lambda>ctx h. (Inl e, h)) \<rparr>"


text \<open>
  The macro that the test "should not resolve list-bounded macro when called outside
  list bounds" registers: one required argument and a list of one or two entries;
  \<open>strictArgs\<close> is left to its default, under which the test expects the invocation raw.
\<close>

fun joinWith :: "string \<Rightarrow> string list \<Rightarrow> string" where
  "joinWith sep [] = []"
| "joinWith sep [x] = x"
| "joinWith sep (x # y # ys) = x @ sep @ joinWith sep (y # ys)"

definition testListBounds :: "(unit, unit) macro_definition" where
  "testListBounds =
     \<lparr> def_name = ''test-list-bounds'', minArgs = 1, maxArgs = 1,
       unnamedArgDefs = [\<lparr> arg_name = [], arg_type = [TString], arg_optional = False,
                          arg_defaultValue = None \<rparr>],
       def_list = Some (1, Some 2), strictArgs = True,
       handler = (\<lambda>ctx h. (Inr (JString (joinWith ''|'' (unnamedArgs ctx @ listArgs ctx))), h)) \<rparr>"

text \<open>A definition with one optional argument and a list of one or two entries.\<close>

definition optionalWithList :: "(unit, unit) macro_definition" where
  "optionalWithList =
     \<lparr> def_name = ''optional-with-list'', minArgs = 0, maxArgs = 1,
       unnamedArgDefs = [\<lparr> arg_name = [], arg_type = [TString], arg_optional = True,
                          arg_defaultValue = Some [] \<rparr>],
       def_list = Some (1, Some 2), strictArgs = True,
       handler = (\<lambda>ctx h. (Inr (JString (joinWith ''|'' (unnamedArgs ctx @ listArgs ctx))), h)) \<rparr>"

text \<open>
  The validity condition in the words of the spec (section 4.3, step 2), to compare
  \<open>isArgCountValid\<close> with: the list minimum is required only when \<open>n > maxArgs\<close>.
\<close>

definition arityValid_claim :: "('d, 'h) macro_definition \<Rightarrow> nat \<Rightarrow> bool" where
  "arityValid_claim d n =
     (minArgs d \<le> n \<and> withinListMax d n \<and> (maxArgs d < n \<longrightarrow> maxArgs d + listMin d \<le> n))"

section \<open>Properties of the engine\<close>


lemma firstTypeMismatch_no_defs: "unnamedArgDefs d = [] \<Longrightarrow> firstTypeMismatch d argv = None"
  by (simp add: firstTypeMismatch_def)


text \<open>
  C6. \<open>#resolveMacro\<close> does not propagate what \<open>MacroRegistry.executeMacro\<close> throws.
  Whenever the invocation is dispatched (its name is not empty and it is a dynamic macro
  or registered) and \<open>executeMacro\<close> throws \<open>error\<close>, leaving the state \<open>st1\<close>, the
  result is the raw invocation \<open>{{ rawInner }}\<close>, and exactly one entry is logged: a
  runtime warning when the error has the name \<open>MacroRuntimeError\<close> or the tag
  \<open>isMacroRuntimeError\<close>, an internal error otherwise. (In the model \<open>resolveMacro\<close>
  returns a string in every branch: the function has no \<open>throw\<close> of its own.)
\<close>

theorem resolveMacro_catches:
  assumes "call_name call \<noteq> []"
    and "dynamicOverride (call_env call) (call_name call) \<noteq> None \<or> registry (call_name call) \<noteq> None"
    and "executeMacro registry (env_data (call_env call)) call
           (dynamicOverride (call_env call) (call_name call)) st = (Inl error, st1)"
  shows "resolveMacro registry call st =
           (''{{'' @ call_rawInner call @ ''}}'',
            emit (if isRuntimeError error
                  then RuntimeWarning
                         (messageOr error (''Macro \"'' @ call_name call @ ''\" execution failed.''))
                  else InternalError (''Macro \"'' @ call_name call @ ''\" internal execution error.''))
              st1)"
  using assms by (auto simp add: resolveMacro_def Let_def)

theorem resolveMacro_catches_witness:
  "resolveMacro [''boom'' \<mapsto> throwingMacro (createMacroRuntimeError (PlainMessage ''bad roll''))]
     (callOf ''boom'' [] ''boom'' (plainEnv Map.empty)) state0
   = (''{{boom}}'', \<lparr> logged = [RuntimeWarning (PlainMessage ''bad roll'')], handlerState = () \<rparr>)
   \<and> resolveMacro [''boom'' \<mapsto> throwingMacro JsOther]
     (callOf ''boom'' [] ''boom'' (plainEnv Map.empty)) state0
   = (''{{boom}}'',
      \<lparr> logged = [InternalError ''Macro \"boom\" internal execution error.''], handlerState = () \<rparr>)"
proof -
  let ?e = "createMacroRuntimeError (PlainMessage ''bad roll'')"
  let ?call = "callOf ''boom'' [] ''boom'' (plainEnv Map.empty)"
  have x: "executeMacro [''boom'' \<mapsto> throwingMacro e] (env_data (call_env ?call)) ?call
             (dynamicOverride (call_env ?call) (call_name ?call)) state0 = (Inl e, state0)" for e
    by (simp add: executeMacro_def callOf_def plainEnv_def dynamicOverride_def throwingMacro_def
        isArgCountValid_def withinListMax_def listMin_def executeValidated_def applyDefaults_def
        firstTypeMismatch_no_defs invokeHandler_def state0_def)
  have n: "call_name ?call \<noteq> []" by (simp add: callOf_def)
  have r: "dynamicOverride (call_env ?call) (call_name ?call) \<noteq> None
           \<or> [''boom'' \<mapsto> throwingMacro e] (call_name ?call) \<noteq> None" for e
    by (simp add: callOf_def)
  show ?thesis
    using resolveMacro_catches[OF n r x, of ?e] resolveMacro_catches[OF n r x, of JsOther]
    by (simp add: isRuntimeError_def createMacroRuntimeError_def messageOr_def emit_def state0_def
        callOf_def)
qed






text \<open>
  C3, as the spec states it, makes a call with exactly \<open>maxArgs\<close> arguments valid
  whatever the list minimum: the spec's condition accepts \<open>{{test-list-bounds::base}}\<close>
  (one argument, one positional, a list of 1 to 2 entries), which the repository's test
  expects to be rejected with a warning and left raw.
\<close>

theorem arity_claim_counterexample:
  "\<not> (isArgCountValid testListBounds 1 \<longleftrightarrow> arityValid_claim testListBounds 1)"
  by (simp add: isArgCountValid_def arityValid_claim_def testListBounds_def withinListMax_def
      listMin_def)


text \<open>
  C3, amended. A call with \<open>n\<close> arguments is arity-valid if and only if
  \<open>minArgs + listMin \<le> n \<le> maxArgs + listMax\<close>, where \<open>listMin\<close> is 0 without a list and
  \<open>listMax\<close> is 0 without a list and unbounded for a list without \<open>max\<close>. When the call is
  invalid and the definition strict, \<open>executeMacro\<close> throws the runtime error without
  running the handler (the state is unchanged), and \<open>resolveMacro\<close> answers with the raw
  invocation and logs one runtime warning; when it is invalid and the definition not
  strict, the warning is logged and execution continues with the defaults, the type
  validation and the handler.
\<close>

theorem arity_validation:
  "(isArgCountValid d n \<longleftrightarrow>
      (case def_list d of
         None \<Rightarrow> minArgs d \<le> n \<and> n \<le> maxArgs d
       | Some (mn, None) \<Rightarrow> minArgs d + mn \<le> n
       | Some (mn, Some mx) \<Rightarrow> minArgs d + mn \<le> n \<and> n \<le> maxArgs d + mx))
   \<and> (\<not> isArgCountValid d (length (call_args call)) \<and> strictArgs d \<longrightarrow>
        executeMacro registry envData call (Some d) st =
          (Inl (createMacroRuntimeError (ArityMessage (def_name d) (length (call_args call)))), st))
   \<and> (\<not> isArgCountValid d (length (call_args call)) \<and> strictArgs d
        \<and> call_name call \<noteq> [] \<and> dynamicMacros (call_env call) (call_name call) = None
        \<and> registry' (call_name call) = Some d \<longrightarrow>
        resolveMacro registry' call st' =
          (''{{'' @ call_rawInner call @ ''}}'',
           emit (RuntimeWarning (ArityMessage (def_name d) (length (call_args call)))) st'))
   \<and> (\<not> isArgCountValid d (length (call_args call)) \<and> \<not> strictArgs d \<longrightarrow>
        executeMacro registry envData call (Some d) st =
          executeValidated d envData call
            (emit (RuntimeWarning (ArityMessage (def_name d) (length (call_args call)))) st))"
proof -
  have a: "isArgCountValid d n \<longleftrightarrow>
      (case def_list d of
         None \<Rightarrow> minArgs d \<le> n \<and> n \<le> maxArgs d
       | Some (mn, None) \<Rightarrow> minArgs d + mn \<le> n
       | Some (mn, Some mx) \<Rightarrow> minArgs d + mn \<le> n \<and> n \<le> maxArgs d + mx)"
    unfolding isArgCountValid_def withinListMax_def listMin_def
    by (auto split: option.splits)
  have b: "executeMacro registry envData call (Some d) st =
          (Inl (createMacroRuntimeError (ArityMessage (def_name d) (length (call_args call)))), st)"
    if "\<not> isArgCountValid d (length (call_args call))" "strictArgs d"
    using that by (simp add: executeMacro_def)
  have c: "resolveMacro registry' call st' =
          (''{{'' @ call_rawInner call @ ''}}'',
           emit (RuntimeWarning (ArityMessage (def_name d) (length (call_args call)))) st')"
    if "\<not> isArgCountValid d (length (call_args call))" "strictArgs d"
       "call_name call \<noteq> []" "dynamicMacros (call_env call) (call_name call) = None"
       "registry' (call_name call) = Some d"
    using that
    by (simp add: resolveMacro_def Let_def dynamicOverride_def executeMacro_def isRuntimeError_def
        createMacroRuntimeError_def messageOr_def)
  have e: "executeMacro registry envData call (Some d) st =
          executeValidated d envData call
            (emit (RuntimeWarning (ArityMessage (def_name d) (length (call_args call)))) st)"
    if "\<not> isArgCountValid d (length (call_args call))" "\<not> strictArgs d"
    using that by (simp add: executeMacro_def)
  show ?thesis using a b c e by blast
qed

theorem arity_validation_witness:
  "\<not> isArgCountValid testListBounds 1 \<and> \<not> isArgCountValid testListBounds 4
   \<and> isArgCountValid testListBounds 2 \<and> isArgCountValid testListBounds 3
   \<and> map (isArgCountValid optionalWithList) [0, 1, 2, 3, 4] = [False, True, True, True, False]
   \<and> resolveMacro [''test-list-bounds'' \<mapsto> testListBounds]
        (callOf ''test-list-bounds'' [''base''] ''test-list-bounds::base'' (plainEnv Map.empty)) state0
      = (''{{test-list-bounds::base}}'',
         \<lparr> logged = [RuntimeWarning (ArityMessage ''test-list-bounds'' 1)], handlerState = () \<rparr>)"
proof -
  let ?call = "callOf ''test-list-bounds'' [''base''] ''test-list-bounds::base'' (plainEnv Map.empty)"
  note t = arity_validation[of testListBounds _ ?call _ _ _ "[''test-list-bounds'' \<mapsto> testListBounds]" state0]
  have v: "\<not> isArgCountValid testListBounds 1" "\<not> isArgCountValid testListBounds 4"
    "isArgCountValid testListBounds 2" "isArgCountValid testListBounds 3"
    using arity_validation[of testListBounds 1] arity_validation[of testListBounds 4]
      arity_validation[of testListBounds 2] arity_validation[of testListBounds 3]
    by (simp_all add: testListBounds_def)
  have o: "map (isArgCountValid optionalWithList) [0, 1, 2, 3, 4] = [False, True, True, True, False]"
    using arity_validation[of optionalWithList 0] arity_validation[of optionalWithList 1]
      arity_validation[of optionalWithList 2] arity_validation[of optionalWithList 3]
      arity_validation[of optionalWithList 4]
    by (simp add: optionalWithList_def)
  have "resolveMacro [''test-list-bounds'' \<mapsto> testListBounds] ?call state0
      = (''{{'' @ call_rawInner ?call @ ''}}'',
           emit (RuntimeWarning (ArityMessage (def_name testListBounds) (length (call_args ?call)))) state0)"
    using t v(1) by (simp add: callOf_def plainEnv_def testListBounds_def)
  then show ?thesis using v o by (simp add: callOf_def emit_def state0_def testListBounds_def)
qed



section \<open>Texts the processors leave as they are\<close>

fun occurs :: "string \<Rightarrow> string \<Rightarrow> bool" where
  "occurs pat [] = (pat = [])"
| "occurs pat (c # cs) = (take (length pat) (c # cs) = pat \<or> occurs pat cs)"

fun occurs_ci :: "string \<Rightarrow> string \<Rightarrow> bool" where
  "occurs_ci pat [] = (pat = [])"
| "occurs_ci pat (c # cs) = (ci_prefix pat (c # cs) \<or> occurs_ci pat cs)"

fun has_escape :: "string \<Rightarrow> bool" where
  "has_escape [] = False"
| "has_escape [c] = False"
| "has_escape (c # d # cs) =
     ((c = CHR 0x5C \<and> (d = CHR ''{'' \<or> d = CHR ''}'')) \<or> has_escape (d # cs))"

definition is_newlines :: "string \<Rightarrow> bool" where
  "is_newlines s = (drop_newlines s = [])"

lemma replace_ci_id: "\<not> occurs_ci pat s \<Longrightarrow> replace_ci pat rep s = s"
  by (induction s) auto

lemma lower_ascii_brace: "lower_ascii c = CHR ''{'' \<longleftrightarrow> c = CHR ''{''"
proof
  assume l: "lower_ascii c = CHR ''{''"
  show "c = CHR ''{''"
  proof (cases "65 \<le> (of_char c :: nat) \<and> (of_char c :: nat) \<le> 90")
    case True
    then have "lower_ascii c = char_of ((of_char c :: nat) + 32)" by (simp add: lower_ascii_def)
    then have "(of_char (lower_ascii c) :: nat) = ((of_char c :: nat) + 32) mod 256"
      by (simp add: of_char_of)
    moreover have "(of_char (CHR ''{'') :: nat) = 123" by simp
    ultimately have "((of_char c :: nat) + 32) mod 256 = 123" using l by simp
    with True show ?thesis by auto
  next
    case False
    then show ?thesis using l by (auto simp: lower_ascii_def Let_def)
  qed
next
  assume "c = CHR ''{''"
  then show "lower_ascii c = CHR ''{''" by (simp add: lower_ascii_def)
qed

lemma ci_prefix_open:
  "ci_prefix (CHR ''{'' # CHR ''{'' # p) s \<Longrightarrow> take 2 s = ''{{''"
proof -
  assume a: "ci_prefix (CHR ''{'' # CHR ''{'' # p) s"
  then obtain c s1 where s: "s = c # s1" by (cases s) auto
  with a have c: "c = CHR ''{''" and a1: "ci_prefix (CHR ''{'' # p) s1"
    using lower_ascii_brace[of c] by (auto simp: lower_ascii_def)
  then obtain d s2 where s1: "s1 = d # s2" by (cases s1) auto
  with a1 have "d = CHR ''{''" using lower_ascii_brace[of d] by (auto simp: lower_ascii_def)
  with c s s1 show ?thesis by simp
qed

lemma occurs_open_prefix: "take 2 s = ''{{'' \<Longrightarrow> occurs ''{{'' s"
  by (cases s) auto

lemma occurs_append_left: "occurs pat s \<Longrightarrow> pat \<noteq> [] \<Longrightarrow> occurs pat (p @ s)"
  by (induction p) auto

lemma drop_newlines_suffix: "\<exists>p. s = p @ drop_newlines s"
proof (induction s rule: drop_newlines.induct)
  case 1
  show ?case by simp
next
  case (2 c)
  show ?case by simp
next
  case (3 c d cs)
  show ?case
  proof (cases "c = CHR 0x0A")
    case True
    with 3 obtain p where "d # cs = p @ drop_newlines (d # cs)" by blast
    then have "c # d # cs = (c # p) @ drop_newlines (c # d # cs)" using True by simp
    then show ?thesis by blast
  next
    case False
    show ?thesis
    proof (cases "c = CHR 0x0D \<and> d = CHR 0x0A")
      case True
      with 3 False obtain p where "cs = p @ drop_newlines cs" by blast
      then have "c # d # cs = (c # d # p) @ drop_newlines (c # d # cs)" using True False by simp
      then show ?thesis by blast
    next
      case False
      then have "c # d # cs = [] @ drop_newlines (c # d # cs)" using \<open>c \<noteq> CHR 0x0A\<close> by auto
      then show ?thesis by blast
    qed
  qed
qed

lemma match_time_open: "match_time s = Some x \<Longrightarrow> occurs ''{{'' s"
proof -
  assume "match_time s = Some x"
  then have "ci_prefix ''{{time_utc'' s" unfolding match_time_def by (simp split: if_splits)
  then have "take 2 s = ''{{''" by (rule ci_prefix_open)
  then show ?thesis by (rule occurs_open_prefix)
qed

lemma rewrite_time_id: "\<not> occurs ''{{'' s \<Longrightarrow> rewrite_time s = s"
proof (induction s)
  case Nil
  show ?case by simp
next
  case (Cons c cs)
  have "match_time (c # cs) = None"
    using Cons.prems match_time_open[of "c # cs"] by (cases "match_time (c # cs)") auto
  moreover have "\<not> occurs ''{{'' cs" using Cons.prems by simp
  ultimately show ?case using Cons.IH by simp
qed

lemma match_trim_open: "match_trim s = Some x \<Longrightarrow> occurs ''{{'' s"
proof -
  assume "match_trim s = Some x"
  then have "ci_prefix ''{{trim}}'' (drop_newlines s)"
    unfolding match_trim_def Let_def by (simp split: if_splits)
  then have "take 2 (drop_newlines s) = ''{{''" by (rule ci_prefix_open)
  then have o: "occurs ''{{'' (drop_newlines s)" by (rule occurs_open_prefix)
  obtain p where "s = p @ drop_newlines s" using drop_newlines_suffix by blast
  then show ?thesis using occurs_append_left[OF o, of p] by simp
qed

lemma strip_trim_id: "\<not> occurs ''{{'' s \<Longrightarrow> strip_trim s = s"
proof (induction s)
  case Nil
  show ?case by simp
next
  case (Cons c cs)
  have "match_trim (c # cs) = None"
    using Cons.prems match_trim_open[of "c # cs"] by (cases "match_trim (c # cs)") auto
  moreover have "\<not> occurs ''{{'' cs" using Cons.prems by simp
  ultimately show ?case using Cons.IH by simp
qed

lemma unescape_id: "\<not> has_escape s \<Longrightarrow> unescape s = s"
  by (induction s rule: unescape.induct) auto

lemma runPostProcessors_id:
  "\<not> occurs ''{{'' s \<Longrightarrow> \<not> has_escape s \<Longrightarrow> runPostProcessors s = s"
  by (simp add: runPostProcessors_def unescape_id strip_trim_id)

lemma runPreProcessors_id:
  assumes "\<not> occurs ''{{'' s" "\<not> occurs_ci ''<USER>'' s" "\<not> occurs_ci ''<BOT>'' s"
    "\<not> occurs_ci ''<CHAR>'' s" "\<not> occurs_ci ''<GROUP>'' s" "\<not> occurs_ci ''<CHARIFNOTGROUP>'' s"
  shows "runPreProcessors s = s"
proof -
  have "rewrite_time s = s" using assms(1) by (rule rewrite_time_id)
  moreover have "replace_ci ''<USER>'' ''{{user}}'' s = s" using assms(2) by (rule replace_ci_id)
  moreover have "replace_ci ''<BOT>'' ''{{char}}'' s = s" using assms(3) by (rule replace_ci_id)
  moreover have "replace_ci ''<CHAR>'' ''{{char}}'' s = s" using assms(4) by (rule replace_ci_id)
  moreover have "replace_ci ''<GROUP>'' ''{{group}}'' s = s" using assms(5) by (rule replace_ci_id)
  moreover have "replace_ci ''<CHARIFNOTGROUP>'' ''{{charIfNotGroup}}'' s = s"
    using assms(6) by (rule replace_ci_id)
  ultimately show ?thesis unfolding runPreProcessors_def Let_def by (simp only:)
qed

lemma drop_newlines_append: "is_newlines nl \<Longrightarrow> drop_newlines (nl @ x) = drop_newlines x"
proof (induction nl rule: drop_newlines.induct)
  case 1
  show ?case by simp
next
  case (2 c)
  then have c: "c = CHR 0x0A" by (simp add: is_newlines_def split: if_splits)
  show ?case using c by (cases x) auto
next
  case (3 c d cs)
  show ?case
  proof (cases "c = CHR 0x0A")
    case True
    with 3 show ?thesis by (simp add: is_newlines_def)
  next
    case False
    with "3.prems" have cr: "c = CHR 0x0D \<and> d = CHR 0x0A"
      by (auto simp: is_newlines_def split: if_splits)
    with 3 False show ?thesis by (simp add: is_newlines_def)
  qed
qed

lemma strip_trim_skip:
  "(\<forall>i < length a. match_trim (drop i a @ r) = None) \<Longrightarrow> strip_trim (a @ r) = a @ strip_trim r"
proof (induction a)
  case Nil
  show ?case by simp
next
  case (Cons c a)
  have "match_trim ((c # a) @ r) = None" using Cons.prems by force
  moreover have "\<forall>i < length a. match_trim (drop i a @ r) = None"
  proof (intro allI impI)
    fix i assume "i < length a"
    then have "match_trim (drop (Suc i) (c # a) @ r) = None" using Cons.prems by (metis Suc_less_eq length_Cons)
    then show "match_trim (drop i a @ r) = None" by simp
  qed
  ultimately show ?case using Cons.IH by simp
qed

lemma ci_prefix_append: "ci_prefix p s \<Longrightarrow> ci_prefix p (s @ r)"
  by (induction p s rule: ci_prefix.induct) auto

lemma strip_trim_token:
  assumes "is_newlines nl1" "is_newlines nl2" "ci_prefix ''{{trim}}'' T" "length T = 8"
  shows "strip_trim (nl1 @ T @ nl2 @ b) = strip_trim (drop_newlines b)"
proof -
  have open2: "take 2 T = ''{{''" using assms(3) by (rule ci_prefix_open)
  then obtain T' where T: "T = CHR ''{'' # CHR ''{'' # T'"
    by (cases T; cases "tl T") auto
  have d1: "drop_newlines (nl1 @ T @ nl2 @ b) = T @ nl2 @ b"
    using drop_newlines_append[OF assms(1)] T by simp
  have p: "ci_prefix ''{{trim}}'' (T @ nl2 @ b)"
    using assms(3) by (rule ci_prefix_append)
  have m: "match_trim (nl1 @ T @ nl2 @ b) = Some (drop_newlines b)"
    unfolding match_trim_def Let_def d1 using p assms(4) drop_newlines_append[OF assms(2)]
    by simp
  obtain c cs where cs: "nl1 @ T @ nl2 @ b = c # cs" using T by (cases nl1) auto
  show ?thesis unfolding cs using m[unfolded cs] by simp
qed

section \<open>Examples: the scenarios of the tests\<close>

text \<open>The names of the environment, as far as the examples use them.\<close>


record macro_names =
  names_user :: string
  names_char :: string

definition realToken :: "string \<Rightarrow> int \<Rightarrow> int \<Rightarrow> token" where
  "realToken img s e =
     \<lparr> tok_id = 0, tok_image = img, startOffset = Num s, endOffset = Some (Num e),
       isInsertedInRecovery = False \<rparr>"

definition insertedToken :: token where
  "insertedToken =
     \<lparr> tok_id = 0, tok_image = [], startOffset = NaN, endOffset = Some NaN,
       isInsertedInRecovery = True \<rparr>"

text \<open>
  Modelled from the spec: \<open>MacroParser.parseDocument\<close> (not under src/) on one text. A
  parser that returns the given tree and parser errors for the given text, and no tree
  for any other. The trees below are the documents of the spec's grammar for the texts of
  the tests: plaintext tokens and macro nodes with their \<open>Macro.Start\<close>,
  \<open>Macro.identifier\<close>, \<open>arguments\<close> and \<open>Macro.End\<close> children, offsets inclusive.
\<close>

definition parserFor :: "string \<Rightarrow> cst \<Rightarrow> string list \<Rightarrow> string \<Rightarrow> parse_result" where
  "parserFor text tree errors t =
     (if t = text then \<lparr> parsed_cst = Some tree, lexingErrors = [], parserErrors = errors \<rparr>
      else \<lparr> parsed_cst = None, lexingErrors = [], parserErrors = [] \<rparr>)"

text \<open>The \<open>trim\<close> macro as core-macros.js registers it: no arguments, and a handler that
  returns the text \<open>{{trim}}\<close>.\<close>

definition trimMacro :: "('d, 'h) macro_definition" where
  "trimMacro =
     \<lparr> def_name = ''trim'', minArgs = 0, maxArgs = 0, unnamedArgDefs = [], def_list = None,
       strictArgs = True, handler = (\<lambda>ctx h. (Inr (JString ''{{trim}}''), h)) \<rparr>"

text \<open>
  Modelled from the spec: the definition of \<open>user\<close> (its registration is not under
  src/), which returns \<open>env.names.user\<close>.
\<close>

definition userMacro :: "(macro_names, 'h) macro_definition" where
  "userMacro =
     \<lparr> def_name = ''user'', minArgs = 0, maxArgs = 0, unnamedArgDefs = [], def_list = None,
       strictArgs = True, handler = (\<lambda>ctx h. (Inr (JString (names_user (ctx_env ctx))), h)) \<rparr>"

definition testRegistry :: "string \<rightharpoonup> (macro_names, unit) macro_definition" where
  "testRegistry = [''trim'' \<mapsto> trimMacro, ''user'' \<mapsto> userMacro]"

definition testEnv :: "(macro_names, unit) macro_env" where
  "testEnv =
     \<lparr> env_data = \<lparr> names_user = ''User'', names_char = ''Character'' \<rparr>,
       dynamicMacros = Map.empty, postProcess = noPostProcess \<rparr>"

text \<open>The test "should strip trim macro and surrounding newlines (legacy behavior)".\<close>

definition trimText :: string where
  "trimText = ''foo'' @ [CHR 0x0A, CHR 0x0A] @ ''{{trim}}'' @ [CHR 0x0A, CHR 0x0A] @ ''bar''"

definition trimCst :: cst where
  "trimCst =
     Node ''document''
       [(''plaintext'', [Tok (realToken (''foo'' @ [CHR 0x0A, CHR 0x0A]) 0 4),
                          Tok (realToken ([CHR 0x0A, CHR 0x0A] @ ''bar'') 13 17)]),
        (''macro'', [Node ''macro''
                       [(''Macro.Start'', [Tok (realToken ''{{'' 5 6)]),
                        (''Macro.identifier'', [Tok (realToken ''trim'' 7 10)]),
                        (''Macro.End'', [Tok (realToken ''}}'' 11 12)])]
                       (Some (Num 5, Num 12))])]
       (Some (Num 0, Num 17))"

text \<open>
  The test "should treat dangling macro start as text and still evaluate subsequent
  macro": the first invocation has no closing delimiter, its \<open>Macro.End\<close> is the token
  the parser inserted in recovery.
\<close>

definition danglingText :: string where
  "danglingText = ''Test {{ hehe {{user}}''"

definition userNode :: cst where
  "userNode =
     Node ''macro''
       [(''Macro.Start'', [Tok (realToken ''{{'' 13 14)]),
        (''Macro.identifier'', [Tok (realToken ''user'' 15 18)]),
        (''Macro.End'', [Tok (realToken ''}}'' 19 20)])]
       (Some (Num 13, Num 20))"

definition heheArguments :: cst where
  "heheArguments =
     Node ''arguments''
       [(''argument'', [Node ''argument'' [(''macro'', [userNode])] (Some (Num 13, Num 20))])]
       (Some (Num 13, Num 20))"

definition heheNode :: cst where
  "heheNode =
     Node ''macro''
       [(''Macro.Start'', [Tok (realToken ''{{'' 5 6)]),
        (''Macro.identifier'', [Tok (realToken ''hehe'' 8 11)]),
        (''arguments'', [heheArguments]),
        (''Macro.End'', [Tok insertedToken])]
       (Some (Num 5, Num 20))"

definition danglingCst :: cst where
  "danglingCst =
     Node ''document''
       [(''plaintext'', [Tok (realToken ''Test '' 0 4)]), (''macro'', [heheNode])]
       (Some (Num 0, Num 20))"

definition state1 :: "unit engine_state" where
  "state1 = \<lparr> logged = [], handlerState = () \<rparr>"

section \<open>Incomplete macros\<close>

definition elements :: "cst \<Rightarrow> cst list" where
  "elements node = concat (map snd (children node))"

inductive exposedFrom :: "cst list \<Rightarrow> cst \<Rightarrow> bool" for es where
  here: "e \<in> set es \<Longrightarrow> exposedFrom es e"
| below: "exposedFrom es n \<Longrightarrow> \<not> isCompleteMacro n \<Longrightarrow> e \<in> set (elements n) \<Longrightarrow> exposedFrom es e"

definition exposed :: "cst \<Rightarrow> cst \<Rightarrow> bool" where
  "exposed root e = exposedFrom (elements root) e"

fun tokenItem :: "token \<Rightarrow> item" where
  "tokenItem t =
     PlaintextItem (startOffset t) (case endOffset t of Some e \<Rightarrow> e | None \<Rightarrow> startOffset t) t"

definition macroItem :: "cst \<Rightarrow> item" where
  "macroItem node = MacroItem (fst (getMacroRange node)) (snd (getMacroRange node)) node"



lemma cst_induct:
  assumes tok: "\<And>t. P (Tok t)"
    and node: "\<And>n ch loc. (\<And>k es e. (k, es) \<in> set ch \<Longrightarrow> e \<in> set es \<Longrightarrow> P e) \<Longrightarrow> P (Node n ch loc)"
  shows "P x"
proof (induction x)
  case (Tok t)
  show ?case by (rule tok)
next
  case (Node n ch loc)
  show ?case
  proof (rule node)
    fix k es e
    assume "(k, es) \<in> set ch" "e \<in> set es"
    then show "P e" using Node.IH[of "(k, es)" es e] by simp
  qed
qed

lemma flatten_accumulates_elements0:
  assumes "\<And>e excl items. e \<in> set es \<Longrightarrow>
             flattenIncompleteMacro e excl items = items @ flattenIncompleteMacro e excl []"
  shows "flattenElements es excl items = items @ flattenElements es excl []"
  using assms
proof (induction es arbitrary: items)
  case Nil
  show ?case by simp
next
  case (Cons e es)
  have rest: "flattenElements es excl xs = xs @ flattenElements es excl []" for xs
  proof (rule Cons.IH)
    fix e' excl' items'
    assume "e' \<in> set es"
    then have "e' \<in> set (e # es)" by simp
    then show "flattenIncompleteMacro e' excl' items' = items' @ flattenIncompleteMacro e' excl' []"
      by (rule Cons.prems)
  qed
  have this_e: "flattenIncompleteMacro e x xs = xs @ flattenIncompleteMacro e x []" for x xs
    by (rule Cons.prems) simp
  show ?case
  proof (cases e)
    case (Tok t)
    show ?thesis unfolding Tok flattenElements.simps
      using rest[of "items @ [tokenItem t]"] rest[of "[tokenItem t]"] rest[of items]
      by (simp del: flattenIncompleteMacro.simps)
  next
    case (Node n ch loc)
    let ?step = "\<lambda>xs. (let element = Node n ch loc;
            nestedEnd = firstToken ''Macro.End'' element;
            nestedStart = firstToken ''Macro.Start'' element
        in if nestedStart \<noteq> None \<and> nestedEnd \<noteq> None then
             (if \<not> isRecoveryToken nestedEnd then
                xs @ [MacroItem (fst (getMacroRange element)) (snd (getMacroRange element)) element]
              else flattenIncompleteMacro element nestedEnd xs)
           else flattenIncompleteMacro element excl xs)"
    have step: "?step items = items @ ?step []"
      using this_e[unfolded Node, of "firstToken ''Macro.End'' (Node n ch loc)" items]
        this_e[unfolded Node, of excl items]
      by (simp add: Let_def del: flattenIncompleteMacro.simps)
    have "flattenElements es excl (?step items) = items @ flattenElements es excl (?step [])"
      using rest[of "?step items"] rest[of "?step []"] step by (simp only: append_assoc)
    then show ?thesis unfolding Node flattenElements.simps .
  qed
qed

lemma flatten_accumulates_groups0:
  assumes "\<And>k es e excl items. (k, es) \<in> set gs \<Longrightarrow> e \<in> set es \<Longrightarrow>
             flattenIncompleteMacro e excl items = items @ flattenIncompleteMacro e excl []"
  shows "flattenGroups gs excl items = items @ flattenGroups gs excl []"
  using assms
proof (induction gs arbitrary: items)
  case Nil
  show ?case by simp
next
  case (Cons g gs)
  obtain k es where g: "g = (k, es)" by (cases g) auto
  have rest: "flattenGroups gs excl xs = xs @ flattenGroups gs excl []" for xs
  proof (rule Cons.IH)
    fix k' es' e' excl' items'
    assume "(k', es') \<in> set gs" "e' \<in> set es'"
    then show "flattenIncompleteMacro e' excl' items' = items' @ flattenIncompleteMacro e' excl' []"
      using Cons.prems[of k' es' e' excl' items'] by simp
  qed
  have e: "flattenElements es excl xs = xs @ flattenElements es excl []" for xs
  proof (rule flatten_accumulates_elements0)
    fix e' excl' items'
    assume "e' \<in> set es"
    then show "flattenIncompleteMacro e' excl' items' = items' @ flattenIncompleteMacro e' excl' []"
      using Cons.prems[of k es e' excl' items'] g by simp
  qed
  have "flattenGroups gs excl (flattenElements es excl items)
        = items @ flattenGroups gs excl (flattenElements es excl [])"
    using rest[of "flattenElements es excl items"] rest[of "flattenElements es excl []"] e[of items]
    by (simp only: append_assoc)
  then show ?case unfolding g flattenGroups.simps .
qed

lemma flattenIncompleteMacro_accumulates:
  "flattenIncompleteMacro node excl items = items @ flattenIncompleteMacro node excl []"
proof (induction node arbitrary: excl items rule: cst_induct)
  case (1 t)
  show ?case by simp
next
  case (2 n ch loc)
  show ?case unfolding flattenIncompleteMacro.simps
  proof (rule flatten_accumulates_groups0)
    fix k es e excl' items'
    assume "(k, es) \<in> set ch" "e \<in> set es"
    then show "flattenIncompleteMacro e excl' items' = items' @ flattenIncompleteMacro e excl' []"
      by (rule 2)
  qed
qed


lemma flatten_accumulates_elements:
  "flattenElements es excl items = items @ flattenElements es excl []"
  by (rule flatten_accumulates_elements0) (rule flattenIncompleteMacro_accumulates)

lemma flatten_accumulates_groups:
  "flattenGroups gs excl items = items @ flattenGroups gs excl []"
  by (rule flatten_accumulates_groups0) (rule flattenIncompleteMacro_accumulates)

definition contribution :: "token option \<Rightarrow> cst \<Rightarrow> item list" where
  "contribution excl e = flattenElements [e] excl []"

lemma contribution_Tok:
  "contribution excl (Tok t) = (if Some t = excl then [] else [tokenItem t])"
  by (simp add: contribution_def)

lemma contribution_complete:
  "isCompleteMacro e \<Longrightarrow> contribution excl e = [macroItem e]"
proof (cases e)
  case (Tok t)
  assume "isCompleteMacro e"
  with Tok show ?thesis by (simp add: isCompleteMacro_def firstToken_def kids_def)
next
  case (Node n ch loc)
  assume "isCompleteMacro e"
  with Node show ?thesis
    by (simp add: contribution_def isCompleteMacro_def macroItem_def Let_def)
qed

lemma contribution_incomplete:
  assumes "\<not> isCompleteMacro (Node n ch loc)" "isRecoveryToken excl"
  shows "\<exists>excl'. isRecoveryToken excl' \<and>
           contribution excl (Node n ch loc) = flattenIncompleteMacro (Node n ch loc) excl' []"
proof (cases "firstToken ''Macro.Start'' (Node n ch loc) \<noteq> None
              \<and> firstToken ''Macro.End'' (Node n ch loc) \<noteq> None")
  case True
  then have r: "isRecoveryToken (firstToken ''Macro.End'' (Node n ch loc))"
    using assms(1) by (simp add: isCompleteMacro_def)
  have "contribution excl (Node n ch loc)
        = flattenIncompleteMacro (Node n ch loc) (firstToken ''Macro.End'' (Node n ch loc)) []"
    using True r by (simp add: contribution_def Let_def del: flattenIncompleteMacro.simps)
  then show ?thesis using r by blast
next
  case False
  then have "contribution excl (Node n ch loc) = flattenIncompleteMacro (Node n ch loc) excl []"
    by (auto simp add: contribution_def Let_def simp del: flattenIncompleteMacro.simps)
  then show ?thesis using assms(2) by blast
qed

lemma flattenElements_Cons:
  "flattenElements (e # es) excl [] = contribution excl e @ flattenElements es excl []"
proof -
  have "flattenElements (e # es) excl [] = flattenElements es excl (contribution excl e)"
    by (cases e) (simp_all add: contribution_def del: flattenIncompleteMacro.simps)
  then show ?thesis
    using flatten_accumulates_elements[of es excl "contribution excl e"] by simp
qed

lemma set_flattenElements:
  "set (flattenElements es excl []) = (\<Union>e \<in> set es. set (contribution excl e))"
  by (induction es) (simp_all add: flattenElements_Cons del: flattenElements.simps(2,3))

lemma set_flattenGroups:
  "set (flattenGroups gs excl []) = (\<Union>e \<in> set (concat (map snd gs)). set (contribution excl e))"
proof (induction gs)
  case Nil
  show ?case by simp
next
  case (Cons g gs)
  obtain k es where g: "g = (k, es)" by (cases g) auto
  have "flattenGroups (g # gs) excl []
        = flattenElements es excl [] @ flattenGroups gs excl []"
    unfolding g flattenGroups.simps
    using flatten_accumulates_groups[of gs excl "flattenElements es excl []"] .
  then show ?case using Cons.IH by (simp add: g set_flattenElements)
qed

lemma set_flattenIncompleteMacro:
  "set (flattenIncompleteMacro node excl []) = (\<Union>e \<in> set (elements node). set (contribution excl e))"
  by (cases node) (simp_all add: elements_def set_flattenGroups)

lemma exposedFrom_contribution:
  assumes "exposedFrom (elements node) x" "isRecoveryToken excl"
  shows "\<exists>excl'. isRecoveryToken excl' \<and>
           set (contribution excl' x) \<subseteq> set (flattenIncompleteMacro node excl [])"
  using assms(1)
proof (induction rule: exposedFrom.induct)
  case (here e)
  then show ?case using assms(2) set_flattenIncompleteMacro[of node excl] by blast
next
  case (below m e)
  then obtain excl' where x: "isRecoveryToken excl'"
    "set (contribution excl' m) \<subseteq> set (flattenIncompleteMacro node excl [])" by blast
  obtain n ch loc where m: "m = Node n ch loc"
    using below.hyps(3) by (cases m) (auto simp: elements_def)
  obtain excl'' where y: "isRecoveryToken excl''"
    "contribution excl' m = flattenIncompleteMacro m excl'' []"
    using contribution_incomplete[of n ch loc excl'] below.hyps(2) x(1) m by blast
  have "set (contribution excl'' e) \<subseteq> set (flattenIncompleteMacro m excl'' [])"
    using below.hyps(3) set_flattenIncompleteMacro[of m excl''] by blast
  then show ?case using x(2) y by auto
qed

lemma exposedFrom_lift:
  assumes "exposedFrom (elements m) y" "exposedFrom es m" "\<not> isCompleteMacro m"
  shows "exposedFrom es y"
  using assms(1)
proof (induction rule: exposedFrom.induct)
  case (here e)
  then show ?case using assms(2,3) exposedFrom.below by blast
next
  case (below n e)
  then show ?case using exposedFrom.below by blast
qed

lemma flatten_sound:
  "x \<in> set (flattenIncompleteMacro node excl []) \<Longrightarrow>
     (\<exists>t. x = tokenItem t \<and> exposed node (Tok t))
     \<or> (\<exists>n. x = macroItem n \<and> exposed node n \<and> isCompleteMacro n)"
proof (induction node arbitrary: excl rule: cst_induct)
  case (1 t)
  then show ?case by simp
next
  case (2 n ch loc)
  let ?node = "Node n ch loc"
  from "2.prems" obtain e where e: "e \<in> set (elements ?node)" "x \<in> set (contribution excl e)"
    using set_flattenIncompleteMacro[of ?node excl] by blast
  then obtain k es where kes: "(k, es) \<in> set ch" "e \<in> set es"
    by (auto simp: elements_def)
  have ex: "exposedFrom (elements ?node) e" using e(1) by (rule exposedFrom.here)
  show ?case
  proof (cases "isCompleteMacro e")
    case True
    then show ?thesis using e(2) ex contribution_complete[of e excl] by (auto simp: exposed_def)
  next
    case False
    show ?thesis
    proof (cases e)
      case (Tok t)
      then show ?thesis using e(2) ex by (auto simp: contribution_Tok exposed_def split: if_splits)
    next
      case (Node n' ch' loc')
      have "\<exists>excl'. contribution excl e = flattenIncompleteMacro e excl' []"
      proof (cases "firstToken ''Macro.Start'' e \<noteq> None \<and> firstToken ''Macro.End'' e \<noteq> None")
        case True
        then have "isRecoveryToken (firstToken ''Macro.End'' e)"
          using False by (simp add: isCompleteMacro_def)
        then have "contribution excl e = flattenIncompleteMacro e (firstToken ''Macro.End'' e) []"
          using True unfolding Node
          by (simp add: contribution_def Let_def del: flattenIncompleteMacro.simps)
        then show ?thesis by blast
      next
        case False
        then have "contribution excl e = flattenIncompleteMacro e excl []"
          unfolding Node
          by (auto simp add: contribution_def Let_def simp del: flattenIncompleteMacro.simps)
        then show ?thesis by blast
      qed
      then obtain excl' where "x \<in> set (flattenIncompleteMacro e excl' [])" using e(2) by auto
      then have "(\<exists>t. x = tokenItem t \<and> exposed e (Tok t))
          \<or> (\<exists>m. x = macroItem m \<and> exposed e m \<and> isCompleteMacro m)"
        using "2.IH"[OF kes] by blast
      then show ?thesis
        using exposedFrom_lift[OF _ ex False] by (auto simp: exposed_def)
    qed
  qed
qed

fun macroContribution :: "cst \<Rightarrow> item list" where
  "macroContribution macroNode =
     (if isRecoveryToken (firstToken ''Macro.End'' macroNode)
      then flattenIncompleteMacro macroNode (firstToken ''Macro.End'' macroNode) []
      else [macroItem macroNode])"

lemma macroItems_append:
  "macroItems ms items = items @ concat (map macroContribution ms)"
proof (induction ms arbitrary: items)
  case Nil
  show ?case by simp
next
  case (Cons m ms)
  have "(let endToken = firstToken ''Macro.End'' m
         in if isRecoveryToken endToken then flattenIncompleteMacro m endToken items
            else items @ [MacroItem (fst (getMacroRange m)) (snd (getMacroRange m)) m])
        = items @ macroContribution m"
    using flattenIncompleteMacro_accumulates[of m "firstToken ''Macro.End'' m" items]
    by (simp add: Let_def macroItem_def)
  then show ?case using Cons.IH by simp
qed

lemma plaintextItems_plain: "MacroItem s e n \<notin> set (plaintextItems es)"
  by (induction es rule: plaintextItems.induct) (auto split: option.splits)

lemma set_collectDocumentItems:
  "set (collectDocumentItems cst) =
     set (plaintextItems (kids ''plaintext'' cst))
     \<union> (\<Union>m \<in> set (kids ''macro'' cst). set (macroContribution m))"
  by (simp add: collectDocumentItems_def set_js_sort macroItems_append del: macroContribution.simps)

lemma macro_items_complete:
  assumes "MacroItem s e n \<in> set (collectDocumentItems cst)"
  shows "\<not> isRecoveryToken (firstToken ''Macro.End'' n)"
proof -
  from assms obtain m where m: "m \<in> set (kids ''macro'' cst)"
      "MacroItem s e n \<in> set (macroContribution m)"
    using plaintextItems_plain by (auto simp: set_collectDocumentItems simp del: macroContribution.simps)
  show ?thesis
  proof (cases "isRecoveryToken (firstToken ''Macro.End'' m)")
    case True
    then have "MacroItem s e n \<in> set (flattenIncompleteMacro m (firstToken ''Macro.End'' m) [])"
      using m(2) by simp
    then show ?thesis
      using flatten_sound[of "MacroItem s e n" m] by (auto simp: macroItem_def isCompleteMacro_def)
  next
    case False
    then show ?thesis using m(2) by (simp add: macroItem_def)
  qed
qed

text \<open>
  C1. A macro node of the document whose \<open>Macro.End\<close> is a recovery token (inserted by
  the parser for the missing close, or absent) is never a macro item itself. Flattening
  reaches the elements of the node without entering a complete invocation (\<open>exposed\<close>):
  every real token reached becomes a plaintext item with its own offsets, every complete
  nested invocation reached becomes a macro item with its range, through nested
  incomplete invocations and argument wrappers alike, and the flattening yields nothing
  else. On the tree of \<open>Test {{ hehe {{user}}\<close> with \<open>names.user = User\<close> the engine
  returns \<open>Test {{ hehe User\<close> and logs the syntax warning.
\<close>

theorem incomplete_macro_flattened:
  assumes "m \<in> set (kids ''macro'' cst)"
    and "isRecoveryToken (firstToken ''Macro.End'' m)"
  shows "(\<forall>s e. MacroItem s e m \<notin> set (collectDocumentItems cst))
       \<and> (\<forall>t. exposed m (Tok t) \<and> \<not> isRecoveryToken (Some t)
              \<longrightarrow> tokenItem t \<in> set (collectDocumentItems cst))
       \<and> (\<forall>n. exposed m n \<and> isCompleteMacro n \<longrightarrow> macroItem n \<in> set (collectDocumentItems cst))
       \<and> (\<forall>x \<in> set (flattenIncompleteMacro m (firstToken ''Macro.End'' m) []).
              (\<exists>t. x = tokenItem t \<and> exposed m (Tok t))
              \<or> (\<exists>n. x = macroItem n \<and> exposed m n \<and> isCompleteMacro n))
       \<and> evaluate (parserFor danglingText danglingCst [''Macro.End expected'']) testRegistry
            danglingText testEnv state1
          = (''Test {{ hehe User'',
             \<lparr> logged = [SyntaxWarning ''parsing'' 1], handlerState = () \<rparr>)"
proof -
  let ?flat = "flattenIncompleteMacro m (firstToken ''Macro.End'' m) []"
  have sub: "set ?flat \<subseteq> set (collectDocumentItems cst)"
    using assms by (auto simp: set_collectDocumentItems simp del: flattenIncompleteMacro.simps)
  have a: "MacroItem s e m \<notin> set (collectDocumentItems cst)" for s e
    using macro_items_complete[of s e m cst] assms(2) by blast
  have b: "tokenItem t \<in> set (collectDocumentItems cst)"
    if ex: "exposed m (Tok t)" and real: "\<not> isRecoveryToken (Some t)" for t
  proof -
    obtain excl' where x: "isRecoveryToken excl'" "set (contribution excl' (Tok t)) \<subseteq> set ?flat"
      using exposedFrom_contribution[OF ex[unfolded exposed_def] assms(2)] by blast
    have "Some t \<noteq> excl'" using x(1) real by auto
    then show ?thesis using x(2) sub by (auto simp: contribution_Tok simp del: tokenItem.simps)
  qed
  have c: "macroItem n \<in> set (collectDocumentItems cst)"
    if ex: "exposed m n" and cn: "isCompleteMacro n" for n
  proof -
    obtain excl' where "set (contribution excl' n) \<subseteq> set ?flat"
      using exposedFrom_contribution[OF ex[unfolded exposed_def] assms(2)] by blast
    then show ?thesis using sub contribution_complete[OF cn] by auto
  qed
  have d: "(\<exists>t. x = tokenItem t \<and> exposed m (Tok t))
              \<or> (\<exists>n. x = macroItem n \<and> exposed m n \<and> isCompleteMacro n)"
    if "x \<in> set ?flat" for x
    using that by (rule flatten_sound)
  have e: "evaluate (parserFor danglingText danglingCst [''Macro.End expected'']) testRegistry
            danglingText testEnv state1
          = (''Test {{ hehe User'',
             \<lparr> logged = [SyntaxWarning ''parsing'' 1], handlerState = () \<rparr>)"
    by code_simp
  show ?thesis using a b c d e by blast
qed

lemma hehe_exposes_user: "exposed heheNode userNode"
proof -
  let ?argument = "Node ''argument'' [(''macro'', [userNode])] (Some (Num 13, Num 20))"
  have 1: "exposedFrom (elements heheNode) heheArguments"
    by (rule exposedFrom.here) (simp add: elements_def heheNode_def)
  have 2: "exposedFrom (elements heheNode) ?argument"
    by (rule exposedFrom.below[OF 1])
       (simp_all add: isCompleteMacro_def firstToken_def kids_def heheArguments_def elements_def)
  have "exposedFrom (elements heheNode) userNode"
    by (rule exposedFrom.below[OF 2])
       (simp_all add: isCompleteMacro_def firstToken_def kids_def elements_def)
  then show ?thesis by (simp add: exposed_def)
qed

theorem incomplete_macro_flattened_witness:
  "heheNode \<in> set (kids ''macro'' danglingCst)
   \<and> isRecoveryToken (firstToken ''Macro.End'' heheNode)
   \<and> MacroItem (Num 5) (Num 20) heheNode \<notin> set (collectDocumentItems danglingCst)
   \<and> PlaintextItem (Num 5) (Num 6) (realToken ''{{'' 5 6) \<in> set (collectDocumentItems danglingCst)
   \<and> MacroItem (Num 13) (Num 20) userNode \<in> set (collectDocumentItems danglingCst)"
proof -
  have m: "heheNode \<in> set (kids ''macro'' danglingCst)"
    by (simp add: kids_def danglingCst_def)
  have r: "isRecoveryToken (firstToken ''Macro.End'' heheNode)"
    by (simp add: firstToken_def kids_def heheNode_def insertedToken_def)
  note t = incomplete_macro_flattened[OF m r]
  have tk: "exposed heheNode (Tok (realToken ''{{'' 5 6))"
    unfolding exposed_def by (rule exposedFrom.here) (simp add: elements_def heheNode_def)
  have real: "\<not> isRecoveryToken (Some (realToken ''{{'' 5 6))" by (simp add: realToken_def)
  have cu: "isCompleteMacro userNode"
    by (simp add: isCompleteMacro_def firstToken_def kids_def userNode_def realToken_def)
  have "tokenItem (realToken ''{{'' 5 6) \<in> set (collectDocumentItems danglingCst)"
    using t tk real by blast
  moreover have "macroItem userNode \<in> set (collectDocumentItems danglingCst)"
    using t hehe_exposes_user cu by blast
  moreover have "MacroItem (Num 5) (Num 20) heheNode \<notin> set (collectDocumentItems danglingCst)"
    using t by blast
  moreover have "macroItem userNode = MacroItem (Num 13) (Num 20) userNode"
    by (simp add: macroItem_def getMacroRange_def firstToken_def kids_def userNode_def realToken_def)
  moreover have "tokenItem (realToken ''{{'' 5 6) = PlaintextItem (Num 5) (Num 6) (realToken ''{{'' 5 6)"
    by (simp add: realToken_def)
  ultimately show ?thesis using m r by simp
qed

text \<open>
  Only the token given to \<open>#flattenIncompleteMacro\<close> is passed over: a second token
  inserted during recovery is another object and becomes a plaintext item, its offsets
  \<open>NaN\<close>.
\<close>

lemma second_inserted_token_kept:
  "flattenIncompleteMacro
     (Node ''macro''
        [(''Macro.Start'', [Tok (realToken ''{{'' 0 1)]),
         (''Macro.identifier'', [Tok (insertedToken\<lparr>tok_id := 1\<rparr>)]),
         (''Macro.End'', [Tok insertedToken])]
        None)
     (Some insertedToken) []
   = [PlaintextItem (Num 0) (Num 1) (realToken ''{{'' 0 1),
      PlaintextItem NaN NaN (insertedToken\<lparr>tok_id := 1\<rparr>)]"
  by (simp add: realToken_def insertedToken_def)

section \<open>The trim macro\<close>

lemma drop_newlines_keeps:
  "a \<noteq> [] \<Longrightarrow> last a \<noteq> CHR 0x0A \<Longrightarrow> last a \<noteq> CHR 0x0D
   \<Longrightarrow> \<exists>a'. a' \<noteq> [] \<and> drop_newlines (a @ r) = a' @ r \<and> set a' \<subseteq> set a"
proof (induction a rule: drop_newlines.induct)
  case 1
  then show ?case by simp
next
  case (2 c)
  then have "drop_newlines ([c] @ r) = [c] @ r" by (cases r) auto
  then show ?case by blast
next
  case (3 c d cs)
  show ?case
  proof (cases "c = CHR 0x0A")
    case True
    then obtain a' where "a' \<noteq> []" "drop_newlines ((d # cs) @ r) = a' @ r" "set a' \<subseteq> set (d # cs)"
      using "3.IH"(1) "3.prems" by auto
    then show ?thesis using True by auto
  next
    case False
    show ?thesis
    proof (cases "c = CHR 0x0D \<and> d = CHR 0x0A")
      case True
      then have "cs \<noteq> []" using "3.prems" by auto
      then obtain a' where "a' \<noteq> []" "drop_newlines (cs @ r) = a' @ r" "set a' \<subseteq> set cs"
        using "3.IH"(2) "3.prems" False True by auto
      then show ?thesis using True False by auto
    next
      case False
      then have "drop_newlines ((c # d # cs) @ r) = (c # d # cs) @ r"
        using \<open>c \<noteq> CHR 0x0A\<close> by auto
      then show ?thesis by blast
    qed
  qed
qed

lemma no_match_before:
  assumes "CHR ''{'' \<notin> set a" and "a = [] \<or> (last a \<noteq> CHR 0x0A \<and> last a \<noteq> CHR 0x0D)"
  shows "\<forall>i < length a. match_trim (drop i a @ r) = None"
proof (intro allI impI)
  fix i
  assume i: "i < length a"
  then have ne: "drop i a \<noteq> []" by simp
  have l: "last (drop i a) = last a" using i by simp
  obtain a' where a': "a' \<noteq> []" "drop_newlines (drop i a @ r) = a' @ r" "set a' \<subseteq> set (drop i a)"
    using drop_newlines_keeps[OF ne, of r] l assms(2) i by auto
  obtain c cs where c: "a' = c # cs" using a'(1) by (cases a') auto
  have "c \<in> set a" using a'(3) c set_drop_subset[of i a] by auto
  then have "c \<noteq> CHR ''{''" using assms(1) by auto
  then have "\<not> ci_prefix ''{{trim}}'' (a' @ r)"
    using lower_ascii_brace[of c] c by (auto simp: lower_ascii_def)
  then show "match_trim (drop i a @ r) = None"
    by (simp add: match_trim_def Let_def a'(2))
qed

lemma trim_resolves_to_itself:
  assumes "call_name call = ''trim''" "call_args call = []"
    and "dynamicMacros (call_env call) ''trim'' = None"
    and "postProcess (call_env call) = noPostProcess"
    and "registry ''trim'' = Some trimMacro"
  shows "resolveMacro registry call st = (''{{trim}}'', st)"
  using assms
  by (simp add: resolveMacro_def Let_def dynamicOverride_def executeMacro_def trimMacro_def
      isArgCountValid_def withinListMax_def listMin_def executeValidated_def applyDefaults_def
      firstTypeMismatch_no_defs invokeHandler_def noPostProcess_def)

text \<open>
  C7. The post-processors run after the walk, the removal of \<open>{{trim}}\<close> after the
  unescaping of braces. Each match of \<open>(\r?\n)*{{trim}}(\r?\n)*\<close>, in any letter case,
  is removed whole: for a text \<open>a\<close> in which no match starts, followed by a run of
  newlines, the token, a run of newlines and a rest \<open>b\<close>, the result is \<open>a\<close> followed by
  the result for \<open>b\<close> without its leading newlines. The \<open>trim\<close> macro resolves to
  the text \<open>{{trim}}\<close>, so the token is there after the walk; and
  \<open>foo\n\n{{trim}}\n\nbar\<close> evaluates to \<open>foobar\<close>.
\<close>

theorem trim_postprocessing:
  "runPostProcessors text = strip_trim (unescape text)
   \<and> (is_newlines nl1 \<and> is_newlines nl2 \<and> ci_prefix ''{{trim}}'' T \<and> length T = 8
        \<and> (\<forall>i < length a. match_trim (drop i a @ nl1 @ T @ nl2 @ b) = None)
      \<longrightarrow> strip_trim (a @ nl1 @ T @ nl2 @ b) = a @ strip_trim (drop_newlines b))
   \<and> (call_name call = ''trim'' \<and> call_args call = []
        \<and> dynamicMacros (call_env call) ''trim'' = None
        \<and> postProcess (call_env call) = noPostProcess
        \<and> registry ''trim'' = Some trimMacro
      \<longrightarrow> resolveMacro registry call st = (''{{trim}}'', st))
   \<and> evaluate (parserFor trimText trimCst []) testRegistry trimText testEnv state1
       = (''foobar'', state1)"
proof -
  have a: "strip_trim (a @ nl1 @ T @ nl2 @ b) = a @ strip_trim (drop_newlines b)"
    if "is_newlines nl1" "is_newlines nl2" "ci_prefix ''{{trim}}'' T" "length T = 8"
      "\<forall>i < length a. match_trim (drop i a @ nl1 @ T @ nl2 @ b) = None"
    using strip_trim_skip[OF that(5)] strip_trim_token[OF that(1-4), of b] by simp
  have e: "evaluate (parserFor trimText trimCst []) testRegistry trimText testEnv state1
       = (''foobar'', state1)"
    by code_simp
  show ?thesis
    using a e trim_resolves_to_itself[of call registry st]
    by (simp add: runPostProcessors_def)
qed

theorem trim_postprocessing_witness:
  "runPostProcessors (''foo'' @ [CHR 0x0A, CHR 0x0D, CHR 0x0A] @ ''{{TRIM}}'' @ [CHR 0x0A] @ ''bar'')
     = ''foobar''
   \<and> resolveMacro [''trim'' \<mapsto> trimMacro] (callOf ''trim'' [] ''trim'' (plainEnv Map.empty)) state0
     = (''{{trim}}'', state0)"
proof -
  let ?nl1 = "[CHR 0x0A, CHR 0x0D, CHR 0x0A]"
  let ?nl2 = "[CHR 0x0A]"
  let ?call = "callOf ''trim'' [] ''trim'' (plainEnv Map.empty)"
  note t = trim_postprocessing[of _ ?nl1 ?nl2 "''{{TRIM}}''" "''foo''" "''bar''" ?call
      "[''trim'' \<mapsto> trimMacro]" state0]
  have n1: "is_newlines ?nl1" and n2: "is_newlines ?nl2" by (simp_all add: is_newlines_def)
  have p: "ci_prefix ''{{trim}}'' ''{{TRIM}}''" by code_simp
  have l: "length ''{{TRIM}}'' = 8" by simp
  have nm: "\<forall>i < length ''foo''. match_trim (drop i ''foo'' @ ?nl1 @ ''{{TRIM}}'' @ ?nl2 @ ''bar'') = None"
    by (rule no_match_before) simp_all
  have first: "strip_trim (''foo'' @ ?nl1 @ ''{{TRIM}}'' @ ?nl2 @ ''bar'')
        = ''foo'' @ strip_trim (drop_newlines ''bar'')"
    using t n1 n2 p nm l by blast
  have rest: "strip_trim (drop_newlines ''bar'') = ''bar''" by code_simp
  have u: "unescape (''foo'' @ ?nl1 @ ''{{TRIM}}'' @ ?nl2 @ ''bar'')
         = ''foo'' @ ?nl1 @ ''{{TRIM}}'' @ ?nl2 @ ''bar''" by code_simp
  have post: "runPostProcessors (''foo'' @ ?nl1 @ ''{{TRIM}}'' @ ?nl2 @ ''bar'') = ''foobar''"
    unfolding runPostProcessors_def u first rest by simp
  have "resolveMacro [''trim'' \<mapsto> trimMacro] ?call state0 = (''{{trim}}'', state0)"
    using t by (simp add: callOf_def plainEnv_def)
  then show ?thesis using post by simp
qed

section \<open>Documents of plain text\<close>

fun tokensInOrder :: "int \<Rightarrow> cst list \<Rightarrow> bool" where
  "tokensInOrder c [] = True"
| "tokensInOrder c (Tok t # es) =
     (case (startOffset t, endOffset t) of
        (Num s, Some (Num e)) \<Rightarrow> c \<le> s \<and> s \<le> e + 1 \<and> tokensInOrder (e + 1) es
      | _ \<Rightarrow> False)"
| "tokensInOrder c (Node n ch loc # es) = False"

definition plaintextOnly :: "cst \<Rightarrow> bool" where
  "plaintextOnly tree = (kids ''macro'' tree = [] \<and> tokensInOrder 0 (kids ''plaintext'' tree))"

fun itemsInOrder :: "int \<Rightarrow> item list \<Rightarrow> bool" where
  "itemsInOrder c [] = True"
| "itemsInOrder c (PlaintextItem (Num s) (Num e) t # is) =
     (c \<le> s \<and> s \<le> e + 1 \<and> itemsInOrder (e + 1) is)"
| "itemsInOrder c (i # is) = False"

lemma slice_nonneg:
  "0 \<le> a \<Longrightarrow> a \<le> b \<Longrightarrow> slice text (Num a) (Num b) = take (nat (b - a)) (drop (nat a) text)"
proof -
  assume a: "0 \<le> a" "a \<le> b"
  let ?len = "int (length text)"
  show ?thesis
  proof (cases "a \<le> ?len")
    case True
    show ?thesis
    proof (cases "b \<le> ?len")
      case True
      with a \<open>a \<le> ?len\<close> show ?thesis by (simp add: slice_def clamp_index_def Let_def min_def)
    next
      case False
      with a \<open>a \<le> ?len\<close> show ?thesis
        by (simp add: slice_def clamp_index_def Let_def min_def)
    qed
  next
    case False
    with a show ?thesis by (simp add: slice_def clamp_index_def Let_def min_def)
  qed
qed

lemma slice_append:
  "0 \<le> a \<Longrightarrow> a \<le> b \<Longrightarrow> b \<le> c
   \<Longrightarrow> slice text (Num a) (Num b) @ slice text (Num b) (Num c) = slice text (Num a) (Num c)"
proof -
  assume a: "0 \<le> a" "a \<le> b" "b \<le> c"
  have "take (nat (c - a)) (drop (nat a) text)
        = take (nat (b - a) + nat (c - b)) (drop (nat a) text)"
    using a by (simp add: nat_add_distrib[symmetric])
  also have "\<dots> = take (nat (b - a)) (drop (nat a) text)
                  @ take (nat (c - b)) (drop (nat (b - a)) (drop (nat a) text))"
    by (rule take_add)
  also have "drop (nat (b - a)) (drop (nat a) text) = drop (nat b) text"
    using a by (simp add: nat_add_distrib[symmetric])
  finally show ?thesis using a by (simp add: slice_nonneg)
qed

lemma slice_empty: "0 \<le> a \<Longrightarrow> slice text (Num a) (Num a) = []"
  by (simp add: slice_nonneg)

lemma slice_prefix: "0 \<le> c \<Longrightarrow> slice text (Num 0) (Num c) = take (nat c) text"
  by (simp add: slice_nonneg)

lemma slice_from_nonneg: "0 \<le> a \<Longrightarrow> slice_from text (Num a) = drop (nat a) text"
proof -
  assume a: "0 \<le> a"
  show ?thesis
  proof (cases "a \<le> int (length text)")
    case True
    with a show ?thesis by (simp add: slice_from_def slice_nonneg)
  next
    case False
    with a show ?thesis by (simp add: slice_from_def slice_def clamp_index_def Let_def)
  qed
qed

lemma plaintextItems_inOrder:
  "tokensInOrder c es \<Longrightarrow> itemsInOrder c (plaintextItems es)"
  by (induction c es rule: tokensInOrder.induct) (auto split: jsnum.splits option.splits)

lemma js_sort_sorted_input:
  "successively (\<lambda>a b. \<not> cmp_gt cmp a b) xs \<Longrightarrow> js_sort cmp xs = xs"
proof (induction xs)
  case Nil
  show ?case by (simp add: js_sort_def)
next
  case (Cons x xs)
  have "js_sort cmp xs = xs" using Cons by (cases xs) auto
  then have "js_sort cmp (x # xs) = js_insert cmp x xs" by (simp add: js_sort_def)
  then show ?case using Cons.prems by (cases xs) auto
qed

lemma itemsInOrder_head:
  "itemsInOrder c (i # is) \<Longrightarrow> \<exists>s e t. i = PlaintextItem (Num s) (Num e) t \<and> c \<le> s \<and> s \<le> e + 1 \<and> itemsInOrder (e + 1) is"
  by (cases "(c, i # is)" rule: itemsInOrder.cases) auto

lemma itemsInOrder_successively:
  "itemsInOrder c is \<Longrightarrow> successively (\<lambda>a b. \<not> cmp_gt item_cmp a b) is"
proof (induction "is" arbitrary: c)
  case Nil
  show ?case by simp
next
  case (Cons i "is")
  obtain s e t where i: "i = PlaintextItem (Num s) (Num e) t" "c \<le> s" "s \<le> e + 1"
      "itemsInOrder (e + 1) is"
    using itemsInOrder_head[OF Cons.prems] by blast
  show ?case
  proof (cases "is")
    case Nil
    then show ?thesis by simp
  next
    case (Cons j js)
    have "itemsInOrder (e + 1) (j # js)" using i(4) Cons by simp
    then obtain s' e' t' where j: "j = PlaintextItem (Num s') (Num e') t'" "e + 1 \<le> s'" "s' \<le> e' + 1"
      using itemsInOrder_head by blast
    have "\<not> cmp_gt item_cmp i j" using i j by (auto simp: cmp_gt_def item_cmp_def)
    then show ?thesis using Cons.IH[OF i(4)] Cons by simp
  qed
qed

lemma walk_plaintext:
  "itemsInOrder c is \<Longrightarrow> 0 \<le> c
   \<Longrightarrow> \<exists>c'. c \<le> c' \<and> fold (documentStep text env res) is (take (nat c) text, Num c, st)
              = (take (nat c') text, Num c', st)"
proof (induction "is" arbitrary: c)
  case Nil
  then show ?case by auto
next
  case (Cons i "is")
  obtain s e t where i: "i = PlaintextItem (Num s) (Num e) t" "c \<le> s" "s \<le> e + 1"
      "itemsInOrder (e + 1) is"
    using itemsInOrder_head[OF Cons.prems(1)] by blast
  have prefix: "take (nat c) text = slice text (Num 0) (Num c)"
    using Cons.prems(2) by (simp add: slice_prefix)
  have "(if js_gt (Num s) (Num c) then take (nat c) text @ slice text (Num c) (Num s)
         else take (nat c) text) = slice text (Num 0) (Num s)"
  proof (cases "c < s")
    case True
    then show ?thesis using slice_append[of 0 c s "text"] Cons.prems(2) prefix by simp
  next
    case False
    then show ?thesis using i(2) prefix by simp
  qed
  then have "documentStep text env res i (take (nat c) text, Num c, st)
        = (slice text (Num 0) (Num s) @ slice text (Num s) (Num (e + 1)), Num (e + 1), st)"
    by (simp add: i(1))
  also have "slice text (Num 0) (Num s) @ slice text (Num s) (Num (e + 1))
        = take (nat (e + 1)) text"
    using slice_append[of 0 s "e + 1" "text"] i(2,3) Cons.prems(2) by (simp add: slice_prefix)
  finally have step: "documentStep text env res i (take (nat c) text, Num c, st)
        = (take (nat (e + 1)) text, Num (e + 1), st)" .
  have "0 \<le> e + 1" using i(2,3) Cons.prems(2) by simp
  then obtain c' where "e + 1 \<le> c'"
      "fold (documentStep text env res) is (take (nat (e + 1)) text, Num (e + 1), st)
        = (take (nat c') text, Num c', st)"
    using Cons.IH[OF i(4)] by blast
  then show ?case using step i(2,3) by (intro exI[of _ c']) simp
qed

lemma evaluateDocument_plaintext:
  assumes "plaintextOnly tree"
  shows "evaluateDocument text tree env res st = (text, st)"
proof -
  let ?items = "plaintextItems (kids ''plaintext'' tree)"
  have ord: "itemsInOrder 0 ?items"
    using assms by (simp add: plaintextOnly_def plaintextItems_inOrder)
  have "successively (\<lambda>a b. \<not> cmp_gt item_cmp a b) ?items"
    using ord by (rule itemsInOrder_successively)
  then have "js_sort item_cmp ?items = ?items" by (rule js_sort_sorted_input)
  then have items: "collectDocumentItems tree = ?items"
    using assms by (simp add: collectDocumentItems_def plaintextOnly_def)
  obtain c' where c': "0 \<le> c'"
      "fold (documentStep text env res) ?items ([], Num 0, st) = (take (nat c') text, Num c', st)"
    using walk_plaintext[OF ord, of "text" env res st] by auto
  have "(if js_lt (Num c') (Num (int (length text)))
         then (take (nat c') text @ slice_from text (Num c'), st)
         else (take (nat c') text, st)) = (text, st)"
    using c'(1) by (auto simp: slice_from_nonneg)
  then show ?thesis
    unfolding evaluateDocument_def items Let_def c'(2) by simp
qed

definition helloCst :: cst where
  "helloCst =
     Node ''document''
       [(''plaintext'', [Tok (realToken ''Hello '' 0 5), Tok (realToken ''!'' 14 14)]),
        (''macro'',
         [Node ''macro''
            [(''Macro.Start'', [Tok (realToken ''{{'' 6 7)]),
             (''Macro.identifier'', [Tok (realToken ''user'' 8 11)]),
             (''Macro.End'', [Tok (realToken ''}}'' 12 13)])]
            (Some (Num 6, Num 13))])]
       (Some (Num 0, Num 14))"

definition escapedCst :: cst where
  "escapedCst =
     Node ''document''
       [(''plaintext'', [Tok (realToken [CHR 0x5C] 0 0), Tok (realToken ''{'' 1 1)])]
       (Some (Num 0, Num 1))"

definition plainCst :: cst where
  "plainCst =
     Node ''document''
       [(''plaintext'', [Tok (realToken ''Hello world, no macros here.'' 0 27)])]
       (Some (Num 0, Num 27))"

text \<open>
  C8 fails as stated: the pre-processors rewrite the legacy markers into invocations
  and the post-processors unescape braces, in texts without \<open>{{\<close>. \<open>Hello <USER>!\<close>
  evaluates to \<open>Hello User!\<close> (the test "should support legacy <USER> marker via
  pre-processing"), and a backslash followed by an opening brace evaluates to the brace.
\<close>

theorem no_open_identity_counterexample:
  "\<not> occurs ''{{'' ''Hello <USER>!''
   \<and> fst (evaluate (parserFor ''Hello {{user}}!'' helloCst []) testRegistry ''Hello <USER>!''
          testEnv state1) = ''Hello User!''
   \<and> ''Hello User!'' \<noteq> ''Hello <USER>!''
   \<and> \<not> occurs ''{{'' [CHR 0x5C, CHR ''{'']
   \<and> fst (evaluate (parserFor [CHR 0x5C, CHR ''{''] escapedCst []) testRegistry [CHR 0x5C, CHR ''{'']
          testEnv state1) = ''{''"
  by code_simp

text \<open>
  C8, amended. For every input that contains no \<open>{{\<close>, none of the markers \<open><USER>\<close>,
  \<open><BOT>\<close>, \<open><CHAR>\<close>, \<open><GROUP>\<close>, \<open><CHARIFNOTGROUP>\<close> in any letter case and no
  backslash followed by a brace, \<open>evaluate\<close> returns the input, whenever the parser
  returns for such a text no tree or a document without macro nodes whose plaintext
  tokens are in source order and do not overlap.
\<close>

theorem no_macros_identity:
  assumes "\<not> occurs ''{{'' input"
    and "\<not> occurs_ci ''<USER>'' input" and "\<not> occurs_ci ''<BOT>'' input"
    and "\<not> occurs_ci ''<CHAR>'' input" and "\<not> occurs_ci ''<GROUP>'' input"
    and "\<not> occurs_ci ''<CHARIFNOTGROUP>'' input"
    and "\<not> has_escape input"
    and "case parsed_cst (parseDocument input) of None \<Rightarrow> True | Some tree \<Rightarrow> plaintextOnly tree"
  shows "fst (evaluate parseDocument registry input env st) = input"
proof (cases "input = []")
  case True
  then show ?thesis by (simp add: evaluate_def)
next
  case False
  have pre: "runPreProcessors input = input"
    using assms(1-6) by (rule runPreProcessors_id)
  have post: "runPostProcessors input = input"
    using assms(1,7) by (rule runPostProcessors_id)
  show ?thesis
  proof (cases "parsed_cst (parseDocument input)")
    case None
    then show ?thesis using False by (simp add: evaluate_def Let_def pre)
  next
    case (Some tree)
    then have "plaintextOnly tree" using assms(8) by simp
    then have "evaluateDocument input tree env (resolveMacro registry) st' = (input, st')" for st'
      by (rule evaluateDocument_plaintext)
    then show ?thesis using False Some by (simp add: evaluate_def Let_def pre post)
  qed
qed

theorem no_macros_identity_witness:
  "fst (evaluate (parserFor ''Hello world, no macros here.'' plainCst []) testRegistry
          ''Hello world, no macros here.'' testEnv state1) = ''Hello world, no macros here.''"
proof -
  let ?input = "''Hello world, no macros here.''"
  have p: "case parsed_cst (parserFor ?input plainCst [] ?input) of
             None \<Rightarrow> True | Some tree \<Rightarrow> plaintextOnly tree"
    by (simp add: parserFor_def plaintextOnly_def plainCst_def kids_def realToken_def)
  have 1: "\<not> occurs ''{{'' ?input" by code_simp
  have 2: "\<not> occurs_ci ''<USER>'' ?input" by code_simp
  have 3: "\<not> occurs_ci ''<BOT>'' ?input" by code_simp
  have 4: "\<not> occurs_ci ''<CHAR>'' ?input" by code_simp
  have 5: "\<not> occurs_ci ''<GROUP>'' ?input" by code_simp
  have 6: "\<not> occurs_ci ''<CHARIFNOTGROUP>'' ?input" by code_simp
  have 7: "\<not> has_escape ?input" by code_simp
  show ?thesis
    by (rule no_macros_identity[of ?input "parserFor ?input plainCst []", OF 1 2 3 4 5 6 7 p])
qed

section \<open>The order of evaluation\<close>

text \<open>
  The order in which the walker calls the resolver is observed by a resolver that, beside
  what the given one does, appends each call it receives to a list kept in the state.
\<close>

fun traced :: "('env, 'st) resolver \<Rightarrow> ('env, 'st \<times> 'env macro_call list) resolver" where
  "traced resolver call (st, calls) =
     (let (v, st') = resolver call st in (v, (st', calls @ [call])))"













































definition nameResolver :: "(unit, unit) resolver" where
  "nameResolver call st = (call_name call, st)"

definition macroNamed :: "string \<Rightarrow> int \<Rightarrow> cst" where
  "macroNamed name s =
     Node ''macro''
       [(''Macro.Start'', [Tok (realToken ''{{'' s (s + 1))]),
        (''Macro.identifier'', [Tok (realToken name (s + 2) (s + 1 + int (length name)))]),
        (''Macro.End'',
         [Tok (realToken ''}}'' (s + 2 + int (length name)) (s + 3 + int (length name)))])]
       (Some (Num s, Num (s + 3 + int (length name))))"






text \<open>
  A tree as error recovery can leave it: the argument of \<open>{{a::x{{b}}y}}\<close> with a second
  nested node that overlaps the first.
\<close>

definition overlapText :: string where
  "overlapText = ''{{a::x{{b}}y}}''"

definition overlapInner :: cst where
  "overlapInner = macroNamed ''b'' 6"

definition overlapRecovered :: cst where
  "overlapRecovered =
     Node ''macro''
       [(''Macro.Start'', [Tok (realToken ''b}'' 8 9)]),
        (''Macro.End'', [Tok (realToken ''}'' 10 10)])]
       (Some (Num 8, Num 10))"

definition overlapArgument :: cst where
  "overlapArgument =
     Node ''argument''
       [(''Plaintext'', [Tok (realToken ''x'' 5 5), Tok (realToken ''y'' 11 11)]),
        (''macro'', [overlapInner, overlapRecovered])]
       (Some (Num 5, Num 11))"





section \<open>Offsets inside an argument\<close>

text \<open>
  The result of an argument in the words of the specification, as a list of pieces: a
  piece is either the text between two offsets, copied from the input, or the value of a
  nested invocation, which stands for the span of that invocation. A nested invocation
  whose start lies before the cursor is dropped; every other one contributes the text
  from the cursor to its start, then its value, and moves the cursor behind its end.
\<close>

datatype piece = Copied jsnum jsnum | Expanded cst jsnum jsnum

fun piecesFrom :: "jsnum \<Rightarrow> (cst \<times> jsnum \<times> jsnum) list \<Rightarrow> piece list \<times> jsnum" where
  "piecesFrom cursor [] = ([], cursor)"
| "piecesFrom cursor ((node, rangeStart, rangeEnd) # entries) =
     (if js_lt rangeStart cursor then piecesFrom cursor entries
      else (let (ps, c) = piecesFrom (js_add rangeEnd 1) entries
            in (Copied cursor rangeStart # Expanded node rangeStart rangeEnd # ps, c)))"

definition argumentPieces :: "cst \<Rightarrow> piece list" where
  "argumentPieces argNode =
     (case getArgumentLocation argNode of
        None \<Rightarrow> []
      | Some (locStart, locEnd) \<Rightarrow>
          (if kids ''macro'' argNode = [] then [Copied (Num locStart) (Num (locEnd + 1))]
           else (let (ps, cursor) = piecesFrom (Num locStart) (nestedWithRange argNode)
                 in if js_le cursor (Num locEnd)
                    then ps @ [Copied cursor (Num (locEnd + 1))]
                    else ps)))"

fun renderStep ::
    "string \<Rightarrow> (cst \<Rightarrow> 'st \<Rightarrow> string \<times> 'st) \<Rightarrow> piece \<Rightarrow> string \<times> 'st \<Rightarrow> string \<times> 'st" where
  "renderStep text evalMacro (Copied a b) (result, st) = (result @ slice text a b, st)"
| "renderStep text evalMacro (Expanded node s e) (result, st) =
     (let (v, st') = evalMacro node st in (result @ v, st'))"

text \<open>
  The positions of the input a piece stands for, as a half-open interval: those copied,
  and those of the invocation replaced by its value.
\<close>

fun pieceSpan :: "piece \<Rightarrow> (int \<times> int) option" where
  "pieceSpan (Copied (Num a) (Num b)) = Some (a, b)"
| "pieceSpan (Expanded node (Num s) (Num e)) = Some (s, e + 1)"
| "pieceSpan p = None"

text \<open>
  The positions of the input a piece copies into the result, as \<open>slice\<close> reads its
  arguments; the value of an invocation copies none.
\<close>

fun copiedPositions :: "string \<Rightarrow> piece \<Rightarrow> int list" where
  "copiedPositions text (Copied a b) =
     (let len = int (length text);
          from = clamp_index len (to_integer a);
          to = clamp_index len (to_integer b)
      in [from..to - 1])"
| "copiedPositions text (Expanded node s e) = []"

definition properSpan :: "piece \<Rightarrow> bool" where
  "properSpan p = (case pieceSpan p of Some (a, b) \<Rightarrow> a \<le> b | None \<Rightarrow> False)"

definition before :: "piece \<Rightarrow> piece \<Rightarrow> bool" where
  "before p q = (case (pieceSpan p, pieceSpan q) of
                   (Some (a, b), Some (c, d)) \<Rightarrow> b \<le> c
                 | _ \<Rightarrow> False)"

definition disjointAscending :: "piece list \<Rightarrow> bool" where
  "disjointAscending ps = (list_all properSpan ps \<and> sorted_wrt before ps)"

text \<open>
  The ranges of real tokens: the offsets are numbers, not negative, and no range ends
  more than one position before its start.
\<close>

fun properRange :: "cst \<times> jsnum \<times> jsnum \<Rightarrow> bool" where
  "properRange (node, Num s, Num e) = (s \<le> e + 1)"
| "properRange (node, s, e) = False"

definition wellFormedArgument :: "cst \<Rightarrow> bool" where
  "wellFormedArgument argNode =
     (case getArgumentLocation argNode of
        None \<Rightarrow> True
      | Some (locStart, locEnd) \<Rightarrow>
          0 \<le> locStart \<and> locStart \<le> locEnd + 1
          \<and> list_all properRange (nestedWithRange argNode))"

fun inSequence :: "int \<Rightarrow> piece list \<Rightarrow> bool" where
  "inSequence c [] = True"
| "inSequence c (p # ps) =
     (case pieceSpan p of
        None \<Rightarrow> False
      | Some (a, b) \<Rightarrow> c \<le> a \<and> a \<le> b \<and> inSequence b ps)"

lemma inSequence_weaken: "inSequence c ps \<Longrightarrow> c' \<le> c \<Longrightarrow> inSequence c' ps"
  by (cases ps) (auto split: option.splits)

lemma inSequence_after:
  "inSequence c ps \<Longrightarrow> p \<in> set ps \<Longrightarrow> \<exists>a b. pieceSpan p = Some (a, b) \<and> c \<le> a \<and> a \<le> b"
proof (induction ps arbitrary: c)
  case Nil
  then show ?case by simp
next
  case (Cons q ps)
  obtain a b where q: "pieceSpan q = Some (a, b)" "c \<le> a" "a \<le> b" "inSequence b ps"
    using Cons.prems(1) by (auto split: option.splits)
  show ?case
  proof (cases "p = q")
    case True
    then show ?thesis using q by simp
  next
    case False
    then have "p \<in> set ps" using Cons.prems(2) by simp
    then obtain a' b' where "pieceSpan p = Some (a', b')" "b \<le> a'" "a' \<le> b'"
      using Cons.IH[OF q(4)] by blast
    then show ?thesis using q by auto
  qed
qed

lemma inSequence_disjointAscending: "inSequence c ps \<Longrightarrow> disjointAscending ps"
proof (induction ps arbitrary: c)
  case Nil
  show ?case by (simp add: disjointAscending_def)
next
  case (Cons q ps)
  obtain a b where q: "pieceSpan q = Some (a, b)" "c \<le> a" "a \<le> b" "inSequence b ps"
    using Cons.prems(1) by (auto split: option.splits)
  have rest: "disjointAscending ps" using Cons.IH[OF q(4)] .
  have "before q p" if "p \<in> set ps" for p
    using inSequence_after[OF q(4) that] q(1) by (auto simp: before_def)
  moreover have "properSpan q" using q by (simp add: properSpan_def)
  ultimately show ?case using rest by (simp add: disjointAscending_def)
qed

lemma inSequence_append:
  "inSequence c ps \<Longrightarrow> (\<And>p. p \<in> set ps \<Longrightarrow> \<exists>a b. pieceSpan p = Some (a, b) \<and> b \<le> d)
   \<Longrightarrow> c \<le> d \<Longrightarrow> inSequence d qs \<Longrightarrow> inSequence c (ps @ qs)"
proof (induction ps arbitrary: c)
  case Nil
  then show ?case using inSequence_weaken by simp
next
  case (Cons q ps)
  obtain a b where q: "pieceSpan q = Some (a, b)" "c \<le> a" "a \<le> b" "inSequence b ps"
    using Cons.prems(1) by (auto split: option.splits)
  have "b \<le> d" using Cons.prems(2)[of q] q(1) by auto
  then have "inSequence b (ps @ qs)"
    using Cons.IH[OF q(4) _ _ Cons.prems(4)] Cons.prems(2) by simp
  then show ?case using q by simp
qed

lemma piecesFrom_inSequence:
  "list_all properRange es
   \<Longrightarrow> \<exists>ps c'. piecesFrom (Num c) es = (ps, Num c') \<and> c \<le> c' \<and> inSequence c ps
          \<and> (\<forall>p \<in> set ps. \<exists>a b. pieceSpan p = Some (a, b) \<and> b \<le> c')"
proof (induction es arbitrary: c)
  case Nil
  show ?case by simp
next
  case (Cons x es)
  obtain n s e where x: "x = (n, Num s, Num e)" "s \<le> e + 1"
    using Cons.prems by (cases x rule: properRange.cases) auto
  have es: "list_all properRange es" using Cons.prems by simp
  show ?case
  proof (cases "s < c")
    case True
    then show ?thesis using Cons.IH[OF es, of c] by (simp add: x)
  next
    case False
    obtain ps c' where r: "piecesFrom (Num (e + 1)) es = (ps, Num c')" "e + 1 \<le> c'"
        "inSequence (e + 1) ps" "\<forall>p \<in> set ps. \<exists>a b. pieceSpan p = Some (a, b) \<and> b \<le> c'"
      using Cons.IH[OF es, of "e + 1"] by blast
    have "piecesFrom (Num c) (x # es)
          = (Copied (Num c) (Num s) # Expanded n (Num s) (Num e) # ps, Num c')"
      using False r(1) by (simp add: x)
    moreover have "inSequence c (Copied (Num c) (Num s) # Expanded n (Num s) (Num e) # ps)"
      using False x(2) r(3) by simp
    moreover have "\<forall>p \<in> set (Copied (Num c) (Num s) # Expanded n (Num s) (Num e) # ps).
                     \<exists>a b. pieceSpan p = Some (a, b) \<and> b \<le> c'"
      using r(2,4) x(2) by auto
    moreover have "c \<le> c'" using False x(2) r(2) by simp
    ultimately show ?thesis by blast
  qed
qed

lemma fold_argumentStep_pieces:
  "fold (argumentStep text ev) es (r, cursor, st)
   = (fst (fold (renderStep text ev) (fst (piecesFrom cursor es)) (r, st)),
      snd (piecesFrom cursor es),
      snd (fold (renderStep text ev) (fst (piecesFrom cursor es)) (r, st)))"
proof (induction es arbitrary: r cursor st)
  case Nil
  show ?case by simp
next
  case (Cons x es)
  obtain n s e where x: "x = (n, s, e)" by (cases x) auto
  show ?case
  proof (cases "js_lt s cursor")
    case True
    then show ?thesis using Cons.IH[of r cursor st] by (simp add: x)
  next
    case False
    obtain v st' where v: "ev n st = (v, st')" by (cases "ev n st") auto
    obtain ps c where p: "piecesFrom (js_add e 1) es = (ps, c)"
      by (cases "piecesFrom (js_add e 1) es") auto
    show ?thesis
      using False Cons.IH[of "r @ slice text cursor s @ v" "js_add e 1" st']
      by (simp add: x v p)
  qed
qed

lemma copiedPositions_within:
  assumes "pieceSpan p = Some (a, b)" "0 \<le> a" "a \<le> b" "x \<in> set (copiedPositions text p)"
  shows "a \<le> x \<and> x < b"
proof (cases p)
  case (Copied u v)
  then have uv: "u = Num a" "v = Num b"
    using assms(1) by (cases u; cases v; simp)+
  show ?thesis
    using assms(2,3,4) unfolding Copied uv
    by (auto simp: clamp_index_def Let_def split: if_splits)
next
  case (Expanded n u v)
  then show ?thesis using assms(4) by simp
qed

lemma copiedPositions_distinct: "distinct (copiedPositions text p)"
  by (cases p) (simp_all add: Let_def)

lemma inSequence_positions:
  "inSequence c ps \<Longrightarrow> 0 \<le> c
   \<Longrightarrow> distinct (concat (map (copiedPositions text) ps))
       \<and> (\<forall>x \<in> set (concat (map (copiedPositions text) ps)). c \<le> x)"
proof (induction ps arbitrary: c)
  case Nil
  show ?case by simp
next
  case (Cons p ps)
  obtain a b where p: "pieceSpan p = Some (a, b)" "c \<le> a" "a \<le> b" "inSequence b ps"
    using Cons.prems(1) by (auto split: option.splits)
  have a: "0 \<le> a" using p(2) Cons.prems(2) by simp
  then have b: "0 \<le> b" using p(3) by simp
  have rest: "distinct (concat (map (copiedPositions text) ps))"
      "\<forall>x \<in> set (concat (map (copiedPositions text) ps)). b \<le> x"
    using Cons.IH[OF p(4) b] by simp_all
  have head: "\<forall>x \<in> set (copiedPositions text p). a \<le> x \<and> x < b"
    using copiedPositions_within[OF p(1) a p(3)] by blast
  have "set (copiedPositions text p) \<inter> set (concat (map (copiedPositions text) ps)) = {}"
    using head rest(2) by fastforce
  then have "distinct (concat (map (copiedPositions text) (p # ps)))"
    using rest(1) copiedPositions_distinct[of "text" p] by simp
  moreover have "\<forall>x \<in> set (concat (map (copiedPositions text) (p # ps))). c \<le> x"
  proof
    fix x
    assume "x \<in> set (concat (map (copiedPositions text) (p # ps)))"
    then consider "x \<in> set (copiedPositions text p)"
      | "x \<in> set (concat (map (copiedPositions text) ps))"
      by auto
    then show "c \<le> x"
    proof cases
      case 1
      then show ?thesis using head p(2) by fastforce
    next
      case 2
      then show ?thesis using rest(2) p(2,3) by fastforce
    qed
  qed
  ultimately show ?case by simp
qed

text \<open>
  For every tree the result of an argument is made of the pieces described above: the
  argument evaluator returns the result and the state of rendering them one after the
  other, so that a nested invocation that starts before the cursor is neither evaluated
  nor emitted. When the offsets are those of real tokens, every piece covers an interval
  whose start is not beyond its end, every piece ends before the next one starts, and no
  position of the input is copied twice.
\<close>

lemma argument_pieces:
  "evaluateArgumentNode text env res argNode st
     = fold (renderStep text (evaluateMacroNode text env res)) (argumentPieces argNode) ([], st)
   \<and> (wellFormedArgument argNode
        \<longrightarrow> disjointAscending (argumentPieces argNode)
            \<and> distinct (concat (map (copiedPositions text) (argumentPieces argNode))))"
proof (cases "getArgumentLocation argNode")
  case None
  then show ?thesis
    by (simp add: argumentPieces_def disjointAscending_def)
next
  case (Some loc)
  obtain ls le where loc: "loc = (ls, le)" by (cases loc) auto
  show ?thesis
  proof (cases "kids ''macro'' argNode = []")
    case True
    have "disjointAscending [Copied (Num ls) (Num (le + 1))]
          \<and> distinct (concat (map (copiedPositions text) [Copied (Num ls) (Num (le + 1))]))"
      if "wellFormedArgument argNode"
    proof -
      have "0 \<le> ls" "ls \<le> le + 1" using that Some loc by (simp_all add: wellFormedArgument_def)
      then have "inSequence ls [Copied (Num ls) (Num (le + 1))]" by simp
      then show ?thesis
        using inSequence_disjointAscending inSequence_positions[OF _ \<open>0 \<le> ls\<close>] by blast
    qed
    then show ?thesis using Some loc True by (simp add: argumentPieces_def)
  next
    case False
    let ?es = "nestedWithRange argNode"
    let ?ev = "evaluateMacroNode text env res"
    obtain ps c where p: "piecesFrom (Num ls) ?es = (ps, c)"
      by (cases "piecesFrom (Num ls) ?es") auto
    obtain r st1 where r: "fold (renderStep text ?ev) ps ([], st) = (r, st1)"
      by (cases "fold (renderStep text ?ev) ps ([], st)") auto
    have folded: "fold (argumentStep text ?ev) ?es ([], Num ls, st) = (r, c, st1)"
      using fold_argumentStep_pieces[of "text" ?ev ?es "[]" "Num ls" st] by (simp add: p r)
    have pieces: "argumentPieces argNode
        = (if js_le c (Num le) then ps @ [Copied c (Num (le + 1))] else ps)"
      using Some loc False by (simp add: argumentPieces_def p)
    have eval: "evaluateArgumentNode text env res argNode st
        = (if js_le c (Num le) then (r @ slice text c (Num (le + 1)), st1) else (r, st1))"
      by (subst evaluateArgumentNode.simps) (simp add: Some loc False folded)
    have first: "evaluateArgumentNode text env res argNode st
        = fold (renderStep text ?ev) (argumentPieces argNode) ([], st)"
      unfolding eval pieces by (simp add: r)
    have second: "disjointAscending (argumentPieces argNode)
          \<and> distinct (concat (map (copiedPositions text) (argumentPieces argNode)))"
      if wf: "wellFormedArgument argNode"
    proof -
      have ranges: "list_all properRange ?es" and le: "ls \<le> le + 1" and nonneg: "0 \<le> ls"
        using wf Some loc by (simp_all add: wellFormedArgument_def)
      obtain ps' c' where q: "piecesFrom (Num ls) ?es = (ps', Num c')" "ls \<le> c'"
          "inSequence ls ps'" "\<forall>p \<in> set ps'. \<exists>a b. pieceSpan p = Some (a, b) \<and> b \<le> c'"
        using piecesFrom_inSequence[OF ranges, of ls] by blast
      have ps: "ps = ps'" "c = Num c'" using p q(1) by simp_all
      have "inSequence ls (argumentPieces argNode)"
      proof (cases "c' \<le> le")
        case True
        have "inSequence c' [Copied (Num c') (Num (le + 1))]" using True by simp
        then have "inSequence ls (ps' @ [Copied (Num c') (Num (le + 1))])"
          using inSequence_append[OF q(3) _ q(2)] q(4) by blast
        then show ?thesis using True by (simp add: pieces ps)
      next
        case False
        then show ?thesis using q(3) by (simp add: pieces ps)
      qed
      then show ?thesis
        using inSequence_disjointAscending inSequence_positions[OF _ nonneg] by blast
    qed
    show ?thesis using first second by blast
  qed
qed

lemma argument_pieces_overlap:
  "wellFormedArgument overlapArgument
   \<and> map fst (nestedWithRange overlapArgument) = [overlapInner, overlapRecovered]
   \<and> argumentPieces overlapArgument
       = [Copied (Num 5) (Num 6), Expanded overlapInner (Num 6) (Num 10), Copied (Num 11) (Num 12)]
   \<and> disjointAscending (argumentPieces overlapArgument)
   \<and> evaluateArgumentNode overlapText () (traced nameResolver) overlapArgument ((), [])
       = (''xby'', ((), [buildCall overlapText () overlapInner [] []]))"
proof -
  have wf: "wellFormedArgument overlapArgument" by code_simp
  have nested: "map fst (nestedWithRange overlapArgument) = [overlapInner, overlapRecovered]"
    by code_simp
  have pieces: "argumentPieces overlapArgument
       = [Copied (Num 5) (Num 6), Expanded overlapInner (Num 6) (Num 10), Copied (Num 11) (Num 12)]"
    by code_simp
  have "fold (renderStep overlapText (evaluateMacroNode overlapText () (traced nameResolver)))
          [Copied (Num 5) (Num 6), Expanded overlapInner (Num 6) (Num 10), Copied (Num 11) (Num 12)]
          ([], ((), []))
        = (''xby'', ((), [buildCall overlapText () overlapInner [] []]))"
    by code_simp
  then show ?thesis
    using argument_pieces[of overlapText "()" "traced nameResolver" overlapArgument "((), [])"]
      wf nested pieces
    by simp
qed





section \<open>Unknown invocations\<close>





definition innerStart :: "cst \<Rightarrow> jsnum" where
  "innerStart macroNode =
     (case firstToken ''Macro.Start'' macroNode of
        Some t \<Rightarrow> js_add (num_of (endOffset t)) 1
      | None \<Rightarrow> fst (getMacroRange macroNode))"

definition innerEnd :: "cst \<Rightarrow> jsnum" where
  "innerEnd macroNode =
     (case firstToken ''Macro.End'' macroNode of
        Some t \<Rightarrow> js_add (startOffset t) (- 1)
      | None \<Rightarrow> snd (getMacroRange macroNode))"




fun subsWithin :: "int \<Rightarrow> int \<Rightarrow> (jsnum \<times> jsnum \<times> string) list \<Rightarrow> bool" where
  "subsWithin c b [] = (c \<le> b)"
| "subsWithin c b ((Num s, Num e, v) # subs) = (c \<le> s \<and> s \<le> e + 1 \<and> subsWithin (e + 1) b subs)"
| "subsWithin c b (sub # subs) = False"






lemma subsWithin_le: "subsWithin c b subs \<Longrightarrow> c \<le> b"
  by (induction c b subs rule: subsWithin.induct) auto


























end
